theory Spec2Isabelle
  imports Complex_Main "HOL-Library.Word" "HOL-Library.Signed_Division" "HOL-Library.Log_Nat"
begin

unbundle bit_operations_syntax

section \<open>Quantized block layout (q4_0_optimized.c, lines 20-32)\<close>

text \<open>
  \<^verbatim>\<open>typedef uint16_t ggml_fp16_t;\<close>
  \<^verbatim>\<open>typedef struct { ggml_fp16_t d; uint8_t qs[16]; } block_q4_0;\<close>
  \<^verbatim>\<open>typedef struct { ggml_fp16_t d; int8_t  qs[32]; } block_q8_0;\<close>

  The two structs share their field names in C; the record fields carry the block
  kind as a prefix. Both byte arrays are lists of 8-bit words: \<open>uint8_t\<close> is read with
  \<open>ucast\<close>/\<open>unat\<close>, \<open>int8_t\<close> with \<open>scast\<close>/\<open>sint\<close>. The fixed array sizes are the
  well-formedness predicates \<open>wf_q4_0\<close> and \<open>wf_q8_0\<close>.
\<close>

type_synonym ggml_fp16_t = "16 word"

record block_q4_0 =
  q4_d :: ggml_fp16_t
  q4_qs :: "8 word list"

record block_q8_0 =
  q8_d :: ggml_fp16_t
  q8_qs :: "8 word list"

definition QK4_0 :: nat where
  "QK4_0 = 32"

definition QK8_0 :: nat where
  "QK8_0 = 32"

definition wf_q4_0 :: "block_q4_0 \<Rightarrow> bool" where
  "wf_q4_0 b \<longleftrightarrow> length (q4_qs b) = 16"

definition wf_q8_0 :: "block_q8_0 \<Rightarrow> bool" where
  "wf_q8_0 b \<longleftrightarrow> length (q8_qs b) = 32"

section \<open>Integer part of the scalar remainder loop (lines 92-98 and 180-186)\<close>

text \<open>
  \<^verbatim>\<open>const int v0 = (x[ib].qs[j] & 0x0F) - 8;\<close>
  \<^verbatim>\<open>const int v1 = (x[ib].qs[j] >>   4) - 8;\<close>
  The byte is promoted to \<open>int\<close> (a 32-bit word) before the mask, the shift and the
  subtraction.
\<close>

definition nibble_v0 :: "8 word \<Rightarrow> 32 word" where
  "nibble_v0 q = ((ucast q :: 32 word) AND 0x0F) - 8"

definition nibble_v1 :: "8 word \<Rightarrow> 32 word" where
  "nibble_v1 q = drop_bit 4 (ucast q :: 32 word) - 8"

definition decode_nibble_pair :: "8 word \<Rightarrow> 32 word \<times> 32 word" where
  "decode_nibble_pair q = (nibble_v0 q, nibble_v1 q)"

text \<open>
  One iteration of \<^verbatim>\<open>for (int j = 0; j < qk/2; ++j)\<close>: the two \<open>int\<close> accumulators
  \<open>sumi0\<close> and \<open>sumi1\<close> are 32-bit words, so that an overflow would wrap in the model.
\<close>

definition scalar_step :: "8 word list \<Rightarrow> 8 word list \<Rightarrow> nat \<Rightarrow> 32 word \<times> 32 word \<Rightarrow> 32 word \<times> 32 word" where
  "scalar_step xqs yqs j acc =
     (case acc of (sumi0, sumi1) \<Rightarrow>
        (let v0 = nibble_v0 (xqs ! j);
             v1 = nibble_v1 (xqs ! j)
         in (sumi0 + v0 * scast (yqs ! j),
             sumi1 + v1 * scast (yqs ! (j + QK4_0 div 2)))))"

definition scalar_sumi :: "block_q4_0 \<Rightarrow> block_q8_0 \<Rightarrow> 32 word \<times> 32 word" where
  "scalar_sumi xb yb = fold (scalar_step (q4_qs xb) (q8_qs yb)) [0 ..< QK4_0 div 2] (0, 0)"

text \<open>\<^verbatim>\<open>(sumi0 + sumi1)\<close>, the integer partial sum of one block pair.\<close>

definition scalar_block_sum :: "block_q4_0 \<Rightarrow> block_q8_0 \<Rightarrow> 32 word" where
  "scalar_block_sum xb yb = (case scalar_sumi xb yb of (sumi0, sumi1) \<Rightarrow> sumi0 + sumi1)"

section \<open>NEON integer intrinsics used by the vector paths\<close>

text \<open>
  A 128-bit register of sixteen byte lanes is a list of sixteen 8-bit words; a register
  of four 32-bit lanes is a \<open>vec4\<close>. \<open>vreinterpretq_s8_u8\<close> changes the C type only, so
  it is the identity on lanes.
\<close>

datatype 'a vec4 = Vec4 'a 'a 'a 'a

definition vdupq_n_u8 :: "8 word \<Rightarrow> 8 word list" where
  "vdupq_n_u8 v = replicate 16 v"

definition vdupq_n_s8 :: "8 word \<Rightarrow> 8 word list" where
  "vdupq_n_s8 v = replicate 16 v"

definition vdupq_n_s32 :: "32 word \<Rightarrow> 32 word vec4" where
  "vdupq_n_s32 v = Vec4 v v v v"

definition vld1q_u8 :: "8 word list \<Rightarrow> 8 word list" where
  "vld1q_u8 p = take 16 p"

definition vld1q_s8 :: "8 word list \<Rightarrow> 8 word list" where
  "vld1q_s8 p = take 16 p"

definition vandq_u8 :: "8 word list \<Rightarrow> 8 word list \<Rightarrow> 8 word list" where
  "vandq_u8 a b = map2 (AND) a b"

definition vshrq_n_u8 :: "8 word list \<Rightarrow> nat \<Rightarrow> 8 word list" where
  "vshrq_n_u8 a k = map (drop_bit k) a"

definition vreinterpretq_s8_u8 :: "8 word list \<Rightarrow> 8 word list" where
  "vreinterpretq_s8_u8 a = a"

definition vsubq_s8 :: "8 word list \<Rightarrow> 8 word list \<Rightarrow> 8 word list" where
  "vsubq_s8 a b = map2 (-) a b"

text \<open>
  \<open>vdotq_s32 r a b\<close> (SDOT): lane \<open>i\<close> of the result is lane \<open>i\<close> of \<open>r\<close> plus the four
  products of the sign-extended bytes \<open>4i .. 4i+3\<close> of \<open>a\<close> and \<open>b\<close>, in 32-bit arithmetic.
\<close>

definition sdot_lane :: "8 word list \<Rightarrow> 8 word list \<Rightarrow> nat \<Rightarrow> 32 word \<Rightarrow> 32 word" where
  "sdot_lane a b i r =
     r + scast (a ! (4 * i)) * scast (b ! (4 * i))
       + scast (a ! (4 * i + 1)) * scast (b ! (4 * i + 1))
       + scast (a ! (4 * i + 2)) * scast (b ! (4 * i + 2))
       + scast (a ! (4 * i + 3)) * scast (b ! (4 * i + 3))"

definition vdotq_s32 :: "32 word vec4 \<Rightarrow> 8 word list \<Rightarrow> 8 word list \<Rightarrow> 32 word vec4" where
  "vdotq_s32 r a b =
     (case r of Vec4 r0 r1 r2 r3 \<Rightarrow>
        Vec4 (sdot_lane a b 0 r0) (sdot_lane a b 1 r1) (sdot_lane a b 2 r2) (sdot_lane a b 3 r3))"

text \<open>
  The integer part of \<open>PROCESS_BLOCK\<close> (lines 134-139); the two-block loops of both
  kernels (lines 61-83 and 161-172) apply the same intrinsics to each of their two
  block pairs.
\<close>

definition m4b :: "8 word list" where
  "m4b = vdupq_n_u8 0x0F"

definition s8b :: "8 word list" where
  "s8b = vdupq_n_s8 0x8"

definition block_sdot :: "block_q4_0 \<Rightarrow> block_q8_0 \<Rightarrow> 32 word vec4" where
  "block_sdot xb yb =
     (let qx = vld1q_u8 (q4_qs xb);
          qxl = vsubq_s8 (vreinterpretq_s8_u8 (vandq_u8 qx m4b)) s8b;
          qxh = vsubq_s8 (vreinterpretq_s8_u8 (vshrq_n_u8 qx 4)) s8b;
          qyl = vld1q_s8 (q8_qs yb);
          qyh = vld1q_s8 (drop 16 (q8_qs yb))
      in vdotq_s32 (vdotq_s32 (vdupq_n_s32 0) qxl qyl) qxh qyh)"

section \<open>The format contract, written as sums over the element pairs\<close>

text \<open>
  Element \<open>j\<close> of the weight block for \<open>j < 16\<close> is the low nibble of byte \<open>j\<close>, element
  \<open>j + 16\<close> is the high nibble of byte \<open>j\<close>; both minus the zero point 8.
\<close>

definition weight_lo :: "block_q4_0 \<Rightarrow> nat \<Rightarrow> int" where
  "weight_lo xb j = int (unat (q4_qs xb ! j) mod 16) - 8"

definition weight_hi :: "block_q4_0 \<Rightarrow> nat \<Rightarrow> int" where
  "weight_hi xb j = int (unat (q4_qs xb ! j) div 16) - 8"

definition activation :: "block_q8_0 \<Rightarrow> nat \<Rightarrow> int" where
  "activation yb i = sint (q8_qs yb ! i)"

definition pair_sum :: "block_q4_0 \<Rightarrow> block_q8_0 \<Rightarrow> nat list \<Rightarrow> int" where
  "pair_sum xb yb js =
     (\<Sum>j\<leftarrow>js. weight_lo xb j * activation yb j) + (\<Sum>j\<leftarrow>js. weight_hi xb j * activation yb (j + 16))"

text \<open>The inverted pairing, which the format forbids.\<close>

definition inverted_pair_sum :: "block_q4_0 \<Rightarrow> block_q8_0 \<Rightarrow> nat list \<Rightarrow> int" where
  "inverted_pair_sum xb yb js =
     (\<Sum>j\<leftarrow>js. weight_hi xb j * activation yb j) + (\<Sum>j\<leftarrow>js. weight_lo xb j * activation yb (j + 16))"

definition lane_js :: "nat \<Rightarrow> nat list" where
  "lane_js i = [4 * i, 4 * i + 1, 4 * i + 2, 4 * i + 3]"

section \<open>Floating-point operations\<close>

text \<open>
  The kernels use five floating-point operations: the constant \<^verbatim>\<open>0.0f\<close>, addition,
  multiplication, the conversion of a 32-bit integer (\<^verbatim>\<open>(float) i\<close>, a lane of
  \<open>vcvtq_f32_s32\<close>) and \<open>fp16_to_fp32\<close> (lines 34-38). The kernels are written over
  a record of these operations, so that the same code can be read with the machine's
  binary32 arithmetic (\<open>ieee_ops\<close>) and with exact real arithmetic (\<open>exact_ops\<close>).
\<close>

record 'f fops =
  fzero :: 'f
  fadd :: "'f \<Rightarrow> 'f \<Rightarrow> 'f"
  fmul :: "'f \<Rightarrow> 'f \<Rightarrow> 'f"
  s32_to_f32 :: "32 word \<Rightarrow> 'f"
  fp16_to_fp32 :: "ggml_fp16_t \<Rightarrow> 'f"

subsection \<open>IEEE 754 binary32, round to nearest even\<close>

text \<open>
  \<open>Finite s m e\<close> is the number \<open>(-1)^s * m * 2^e\<close>. The binary32 numbers are the
  canonical ones: a 24-bit significand \<open>0 \<le> m\<close>, an exponent between \<open>-149\<close> and \<open>104\<close>, and
  \<open>e = -149\<close> for the subnormal numbers \<open>m < 2^23\<close>. Every canonical value has exactly
  one bit pattern, except that all NaNs are one value.
\<close>

datatype f32 = Finite bool int int | Infinity bool | NaN

definition f32_canonical :: "f32 \<Rightarrow> bool" where
  "f32_canonical v =
     (case v of
        Finite s m e \<Rightarrow> 0 \<le> m \<and> m < 2 ^ 24 \<and> - 149 \<le> e \<and> e \<le> 104 \<and> (m < 2 ^ 23 \<longrightarrow> e = - 149)
      | Infinity s \<Rightarrow> True
      | NaN \<Rightarrow> True)"

definition is_finite :: "f32 \<Rightarrow> bool" where
  "is_finite v = (case v of Finite s m e \<Rightarrow> True | Infinity s \<Rightarrow> False | NaN \<Rightarrow> False)"

definition f32_pzero :: f32 where
  "f32_pzero = Finite False 0 (- 149)"

definition f32_nzero :: f32 where
  "f32_nzero = Finite True 0 (- 149)"

text \<open>The real number a finite value stands for (0 for the others).\<close>

definition f32_val :: "f32 \<Rightarrow> real" where
  "f32_val v =
     (case v of
        Finite s m e \<Rightarrow>
          (if s then - 1 else 1) * (if 0 \<le> e then real_of_int m * 2 ^ nat e else real_of_int m / 2 ^ nat (- e))
      | Infinity s \<Rightarrow> 0
      | NaN \<Rightarrow> 0)"

text \<open>\<open>rne_shift m k\<close>: the integer nearest to \<open>m / 2^k\<close>, ties to the even one.\<close>

definition rne_shift :: "int \<Rightarrow> nat \<Rightarrow> int" where
  "rne_shift m k =
     (let q = m div 2 ^ k; r = m mod 2 ^ k
      in if 2 * r < 2 ^ k \<or> (2 * r = 2 ^ k \<and> even q) then q else q + 1)"

text \<open>
  \<open>f32_round s m e\<close> rounds the exact value \<open>(-1)^s * m * 2^e\<close> to binary32: the target
  exponent \<open>e'\<close> leaves 24 significant bits or is the subnormal exponent; a significand
  rounded up to \<open>2^24\<close> moves to the next exponent; beyond the largest exponent the
  result is an infinity.
\<close>

definition f32_round :: "bool \<Rightarrow> int \<Rightarrow> int \<Rightarrow> f32" where
  "f32_round s m e =
     (if m = 0 then Finite s 0 (- 149)
      else
        (let e' = max (e + bitlen m - 24) (- 149);
             m' = (if e' \<le> e then m * 2 ^ nat (e - e') else rne_shift m (nat (e' - e)))
         in if m' = 2 ^ 24 then (if 104 < e' + 1 then Infinity s else Finite s (2 ^ 23) (e' + 1))
            else if 104 < e' then Infinity s
            else Finite s m' e'))"

definition signed_int :: "bool \<Rightarrow> int \<Rightarrow> int" where
  "signed_int s k = (if s then - k else k)"

fun f32_add :: "f32 \<Rightarrow> f32 \<Rightarrow> f32" where
  "f32_add NaN b = NaN"
| "f32_add (Infinity s) NaN = NaN"
| "f32_add (Infinity s) (Infinity t) = (if s = t then Infinity s else NaN)"
| "f32_add (Infinity s) (Finite t m e) = Infinity s"
| "f32_add (Finite s m e) NaN = NaN"
| "f32_add (Finite s m e) (Infinity t) = Infinity t"
| "f32_add (Finite s1 m1 e1) (Finite s2 m2 e2) =
     (let e = min e1 e2;
          r = signed_int s1 (m1 * 2 ^ nat (e1 - e)) + signed_int s2 (m2 * 2 ^ nat (e2 - e))
      in if r = 0 then Finite (s1 \<and> s2) 0 (- 149)
         else f32_round (r < 0) \<bar>r\<bar> e)"

fun f32_mul :: "f32 \<Rightarrow> f32 \<Rightarrow> f32" where
  "f32_mul NaN b = NaN"
| "f32_mul (Infinity s) NaN = NaN"
| "f32_mul (Infinity s) (Infinity t) = Infinity (s \<noteq> t)"
| "f32_mul (Infinity s) (Finite t m e) = (if m = 0 then NaN else Infinity (s \<noteq> t))"
| "f32_mul (Finite s m e) NaN = NaN"
| "f32_mul (Finite s m e) (Infinity t) = (if m = 0 then NaN else Infinity (s \<noteq> t))"
| "f32_mul (Finite s1 m1 e1) (Finite s2 m2 e2) = f32_round (s1 \<noteq> s2) (m1 * m2) (e1 + e2)"

definition f32_of_s32 :: "32 word \<Rightarrow> f32" where
  "f32_of_s32 w = (let i = sint w in f32_round (i < 0) \<bar>i\<bar> 0)"

text \<open>
  binary16 to binary32: sign bit 15, five exponent bits, ten fraction bits; the
  conversion is exact. Exponent 31 is an infinity (fraction 0) or a NaN.
\<close>

definition f32_of_fp16 :: "ggml_fp16_t \<Rightarrow> f32" where
  "f32_of_fp16 h =
     (let s = bit h 15;
          ex = uint (drop_bit 10 h AND 0x1F);
          fr = uint (h AND 0x3FF)
      in if ex = 31 then (if fr = 0 then Infinity s else NaN)
         else if ex = 0 then f32_round s fr (- 24)
         else f32_round s (2 ^ 10 + fr) (ex - 25))"

definition ieee_ops :: "f32 fops" where
  "ieee_ops = \<lparr>fzero = f32_pzero, fadd = f32_add, fmul = f32_mul,
                s32_to_f32 = f32_of_s32, fp16_to_fp32 = f32_of_fp16\<rparr>"

subsection \<open>Exact arithmetic\<close>

text \<open>
  The same operations without rounding, over the reals; \<open>dec\<close> gives each stored scale
  its real value.
\<close>

definition exact_ops :: "(ggml_fp16_t \<Rightarrow> real) \<Rightarrow> real fops" where
  "exact_ops dec = \<lparr>fzero = 0, fadd = (+), fmul = (*),
                    s32_to_f32 = (\<lambda>w. real_of_int (sint w)), fp16_to_fp32 = dec\<rparr>"

subsection \<open>NEON floating-point intrinsics\<close>

text \<open>
  \<open>vmlaq_n_f32 a b c\<close> is \<open>a[i] + b[i] * c\<close> in every lane, as a multiplication followed
  by an addition (the file's header: FMUL+FADD). \<open>vaddvq_f32\<close> adds the four lanes
  pairwise (two FADDP): \<open>(a0 + a1) + (a2 + a3)\<close>.
\<close>

definition vdupq_n_f32 :: "'f \<Rightarrow> 'f vec4" where
  "vdupq_n_f32 v = Vec4 v v v v"

definition vcvtq_f32_s32 :: "'f fops \<Rightarrow> 32 word vec4 \<Rightarrow> 'f vec4" where
  "vcvtq_f32_s32 fo p =
     (case p of Vec4 p0 p1 p2 p3 \<Rightarrow>
        Vec4 (s32_to_f32 fo p0) (s32_to_f32 fo p1) (s32_to_f32 fo p2) (s32_to_f32 fo p3))"

definition vmlaq_n_f32 :: "'f fops \<Rightarrow> 'f vec4 \<Rightarrow> 'f vec4 \<Rightarrow> 'f \<Rightarrow> 'f vec4" where
  "vmlaq_n_f32 fo a b c =
     (case a of Vec4 a0 a1 a2 a3 \<Rightarrow>
      case b of Vec4 b0 b1 b2 b3 \<Rightarrow>
        Vec4 (fadd fo a0 (fmul fo b0 c)) (fadd fo a1 (fmul fo b1 c))
             (fadd fo a2 (fmul fo b2 c)) (fadd fo a3 (fmul fo b3 c)))"

definition vaddq_f32 :: "'f fops \<Rightarrow> 'f vec4 \<Rightarrow> 'f vec4 \<Rightarrow> 'f vec4" where
  "vaddq_f32 fo a b =
     (case a of Vec4 a0 a1 a2 a3 \<Rightarrow>
      case b of Vec4 b0 b1 b2 b3 \<Rightarrow>
        Vec4 (fadd fo a0 b0) (fadd fo a1 b1) (fadd fo a2 b2) (fadd fo a3 b3))"

definition vaddvq_f32 :: "'f fops \<Rightarrow> 'f vec4 \<Rightarrow> 'f" where
  "vaddvq_f32 fo a =
     (case a of Vec4 a0 a1 a2 a3 \<Rightarrow> fadd fo (fadd fo a0 a1) (fadd fo a2 a3))"


section \<open>The two kernels\<close>

text \<open>
  \<open>vx\<close> and \<open>vy\<close> point to arrays of blocks: lists, indexed by the C \<open>int\<close> \<open>ib\<close>. The
  kernels do not know the length of the arrays; reading a block that is not there is
  the error \<open>OutOfBounds\<close> (in C the behaviour is undefined). \<open>readable xs ib k\<close>: the
  \<open>k\<close> blocks from index \<open>ib\<close> on exist.
\<close>

datatype error = OutOfBounds

definition readable :: "'a list \<Rightarrow> int \<Rightarrow> int \<Rightarrow> bool" where
  "readable xs ib k \<longleftrightarrow> 0 \<le> ib \<and> ib + k \<le> int (length xs)"

definition blk :: "'a list \<Rightarrow> int \<Rightarrow> 'a" where
  "blk xs ib = xs ! nat ib"

text \<open>
  \<open>PROCESS_BLOCK(IDX, ACC)\<close> (lines 132-142) on the block pair \<open>x[ib + IDX]\<close>,
  \<open>y[ib + IDX]\<close>; the result is the new value of \<open>ACC\<close>.
\<close>

definition PROCESS_BLOCK :: "'f fops \<Rightarrow> block_q4_0 \<Rightarrow> block_q8_0 \<Rightarrow> 'f vec4 \<Rightarrow> 'f vec4" where
  "PROCESS_BLOCK fo xb yb ACC =
     (let qx = vld1q_u8 (q4_qs xb);
          qxl = vsubq_s8 (vreinterpretq_s8_u8 (vandq_u8 qx m4b)) s8b;
          qxh = vsubq_s8 (vreinterpretq_s8_u8 (vshrq_n_u8 qx 4)) s8b;
          qyl = vld1q_s8 (q8_qs yb);
          qyh = vld1q_s8 (drop 16 (q8_qs yb));
          p = vdotq_s32 (vdotq_s32 (vdupq_n_s32 0) qxl qyl) qxh qyh
      in vmlaq_n_f32 fo ACC (vcvtq_f32_s32 fo p)
           (fmul fo (fp16_to_fp32 fo (q4_d xb)) (fp16_to_fp32 fo (q8_d yb))))"

text \<open>The body of the two-block loop of the original kernel (lines 56-86).\<close>

definition original_pair_body ::
  "'f fops \<Rightarrow> block_q4_0 \<Rightarrow> block_q4_0 \<Rightarrow> block_q8_0 \<Rightarrow> block_q8_0 \<Rightarrow> 'f vec4 \<times> 'f vec4 \<Rightarrow> 'f vec4 \<times> 'f vec4" where
  "original_pair_body fo x0 x1 y0 y1 acc =
     (case acc of (sumv0, sumv1) \<Rightarrow>
        (let v0_0 = vld1q_u8 (q4_qs x0);
             v0_1 = vld1q_u8 (q4_qs x1);
             v0_0l = vreinterpretq_s8_u8 (vandq_u8 v0_0 m4b);
             v0_0h = vreinterpretq_s8_u8 (vshrq_n_u8 v0_0 4);
             v0_1l = vreinterpretq_s8_u8 (vandq_u8 v0_1 m4b);
             v0_1h = vreinterpretq_s8_u8 (vshrq_n_u8 v0_1 4);
             v0_0ls = vsubq_s8 v0_0l s8b;
             v0_0hs = vsubq_s8 v0_0h s8b;
             v0_1ls = vsubq_s8 v0_1l s8b;
             v0_1hs = vsubq_s8 v0_1h s8b;
             v1_0l = vld1q_s8 (q8_qs y0);
             v1_0h = vld1q_s8 (drop 16 (q8_qs y0));
             v1_1l = vld1q_s8 (q8_qs y1);
             v1_1h = vld1q_s8 (drop 16 (q8_qs y1));
             p_0 = vdotq_s32 (vdotq_s32 (vdupq_n_s32 0) v0_0ls v1_0l) v0_0hs v1_0h;
             p_1 = vdotq_s32 (vdotq_s32 (vdupq_n_s32 0) v0_1ls v1_1l) v0_1hs v1_1h
         in (vmlaq_n_f32 fo sumv0 (vcvtq_f32_s32 fo p_0)
               (fmul fo (fp16_to_fp32 fo (q4_d x0)) (fp16_to_fp32 fo (q8_d y0))),
             vmlaq_n_f32 fo sumv1 (vcvtq_f32_s32 fo p_1)
               (fmul fo (fp16_to_fp32 fo (q4_d x1)) (fp16_to_fp32 fo (q8_d y1))))))"

text \<open>The body of the two-block remainder loop of the optimized kernel (lines 161-174).\<close>

definition optimized_pair_body ::
  "'f fops \<Rightarrow> block_q4_0 \<Rightarrow> block_q4_0 \<Rightarrow> block_q8_0 \<Rightarrow> block_q8_0 \<Rightarrow> 'f vec4 \<times> 'f vec4 \<Rightarrow> 'f vec4 \<times> 'f vec4" where
  "optimized_pair_body fo x0 x1 y0 y1 acc =
     (case acc of (sv0, sv1) \<Rightarrow>
        (let v0_0 = vld1q_u8 (q4_qs x0);
             v0_1 = vld1q_u8 (q4_qs x1);
             v0_0l = vsubq_s8 (vreinterpretq_s8_u8 (vandq_u8 v0_0 m4b)) s8b;
             v0_0h = vsubq_s8 (vreinterpretq_s8_u8 (vshrq_n_u8 v0_0 4)) s8b;
             v0_1l = vsubq_s8 (vreinterpretq_s8_u8 (vandq_u8 v0_1 m4b)) s8b;
             v0_1h = vsubq_s8 (vreinterpretq_s8_u8 (vshrq_n_u8 v0_1 4)) s8b;
             v1_0l = vld1q_s8 (q8_qs y0);
             v1_0h = vld1q_s8 (drop 16 (q8_qs y0));
             v1_1l = vld1q_s8 (q8_qs y1);
             v1_1h = vld1q_s8 (drop 16 (q8_qs y1));
             p_0 = vdotq_s32 (vdotq_s32 (vdupq_n_s32 0) v0_0l v1_0l) v0_0h v1_0h;
             p_1 = vdotq_s32 (vdotq_s32 (vdupq_n_s32 0) v0_1l v1_1l) v0_1h v1_1h
         in (vmlaq_n_f32 fo sv0 (vcvtq_f32_s32 fo p_0)
               (fmul fo (fp16_to_fp32 fo (q4_d x0)) (fp16_to_fp32 fo (q8_d y0))),
             vmlaq_n_f32 fo sv1 (vcvtq_f32_s32 fo p_1)
               (fmul fo (fp16_to_fp32 fo (q4_d x1)) (fp16_to_fp32 fo (q8_d y1))))))"

text \<open>
  \<^verbatim>\<open>for (; ib + 1 < nb; ib += 2)\<close> of the original kernel (line 55). The loop returns
  the index it stopped at together with the two accumulators.
\<close>

function original_pair_loop ::
  "'f fops \<Rightarrow> int \<Rightarrow> block_q4_0 list \<Rightarrow> block_q8_0 list \<Rightarrow> int \<Rightarrow> 'f vec4 \<times> 'f vec4
     \<Rightarrow> error + (int \<times> 'f vec4 \<times> 'f vec4)" where
  "original_pair_loop fo nb x y ib acc =
     (if ib + 1 < nb then
        (if readable x ib 2 \<and> readable y ib 2 then
           original_pair_loop fo nb x y (ib + 2)
             (original_pair_body fo (blk x (ib + 0)) (blk x (ib + 1)) (blk y (ib + 0)) (blk y (ib + 1)) acc)
         else Inl OutOfBounds)
      else Inr (ib, acc))"
  by pat_completeness auto
termination
  by (relation "measure (\<lambda>(fo, nb, x, y, ib, acc). nat (nb - ib))") auto

text \<open>\<^verbatim>\<open>for (; ib + 1 < nb; ib += 2)\<close> of the optimized kernel (line 160).\<close>

function optimized_pair_loop ::
  "'f fops \<Rightarrow> int \<Rightarrow> block_q4_0 list \<Rightarrow> block_q8_0 list \<Rightarrow> int \<Rightarrow> 'f vec4 \<times> 'f vec4
     \<Rightarrow> error + (int \<times> 'f vec4 \<times> 'f vec4)" where
  "optimized_pair_loop fo nb x y ib acc =
     (if ib + 1 < nb then
        (if readable x ib 2 \<and> readable y ib 2 then
           optimized_pair_loop fo nb x y (ib + 2)
             (optimized_pair_body fo (blk x ib) (blk x (ib + 1)) (blk y ib) (blk y (ib + 1)) acc)
         else Inl OutOfBounds)
      else Inr (ib, acc))"
  by pat_completeness auto
termination
  by (relation "measure (\<lambda>(fo, nb, x, y, ib, acc). nat (nb - ib))") auto

text \<open>
  \<^verbatim>\<open>for (; ib + 3 < nb; ib += 4)\<close> (line 125). The three \<open>__builtin_prefetch\<close> calls
  are hints that read no block and change no value; they have no counterpart here.
\<close>

function optimized_quad_loop ::
  "'f fops \<Rightarrow> int \<Rightarrow> block_q4_0 list \<Rightarrow> block_q8_0 list \<Rightarrow> int
     \<Rightarrow> 'f vec4 \<times> 'f vec4 \<times> 'f vec4 \<times> 'f vec4
     \<Rightarrow> error + (int \<times> 'f vec4 \<times> 'f vec4 \<times> 'f vec4 \<times> 'f vec4)" where
  "optimized_quad_loop fo nb x y ib acc =
     (if ib + 3 < nb then
        (if readable x ib 4 \<and> readable y ib 4 then
           (case acc of (sumv0, sumv1, sumv2, sumv3) \<Rightarrow>
              optimized_quad_loop fo nb x y (ib + 4)
                (PROCESS_BLOCK fo (blk x (ib + 0)) (blk y (ib + 0)) sumv0,
                 PROCESS_BLOCK fo (blk x (ib + 1)) (blk y (ib + 1)) sumv1,
                 PROCESS_BLOCK fo (blk x (ib + 2)) (blk y (ib + 2)) sumv2,
                 PROCESS_BLOCK fo (blk x (ib + 3)) (blk y (ib + 3)) sumv3))
         else Inl OutOfBounds)
      else Inr (ib, acc))"
  by pat_completeness auto
termination
  by (relation "measure (\<lambda>(fo, nb, x, y, ib, acc). nat (nb - ib))") auto

text \<open>
  The scalar remainder loop \<^verbatim>\<open>for (; ib < nb; ++ib)\<close>, the same text in both kernels
  (lines 91-100 and 179-188):
  \<^verbatim>\<open>sumf += (sumi0 + sumi1)*fp16_to_fp32(x[ib].d)*fp16_to_fp32(y[ib].d);\<close>
  The integer sum is converted to \<open>float\<close>, multiplied by the weight scale, then by the
  activation scale, and the product is added to \<open>sumf\<close>.
\<close>

function scalar_loop ::
  "'f fops \<Rightarrow> int \<Rightarrow> block_q4_0 list \<Rightarrow> block_q8_0 list \<Rightarrow> int \<Rightarrow> 'f \<Rightarrow> error + 'f" where
  "scalar_loop fo nb x y ib sumf =
     (if ib < nb then
        (if readable x ib 1 \<and> readable y ib 1 then
           scalar_loop fo nb x y (ib + 1)
             (fadd fo sumf
                (fmul fo
                   (fmul fo (s32_to_f32 fo (scalar_block_sum (blk x ib) (blk y ib)))
                      (fp16_to_fp32 fo (q4_d (blk x ib))))
                   (fp16_to_fp32 fo (q8_d (blk y ib)))))
         else Inl OutOfBounds)
      else Inr sumf)"
  by pat_completeness auto
termination
  by (relation "measure (\<lambda>(fo, nb, x, y, ib, sumf). nat (nb - ib))") auto

text \<open>
  \<open>vec_dot_q4_0_q8_0_original\<close> (lines 42-103). \<open>n\<close> is a C \<open>int\<close> and \<open>n / qk\<close>
  truncates towards zero (\<open>sdiv\<close>). The value returned is the one stored to \<open>*s\<close>.
\<close>

definition vec_dot_q4_0_q8_0_original ::
  "'f fops \<Rightarrow> int \<Rightarrow> block_q4_0 list \<Rightarrow> block_q8_0 list \<Rightarrow> error + 'f" where
  "vec_dot_q4_0_q8_0_original fo n x y =
     (let qk = int QK4_0;
          nb = n sdiv qk;
          sumv0 = vdupq_n_f32 (fzero fo);
          sumv1 = vdupq_n_f32 (fzero fo)
      in case original_pair_loop fo nb x y 0 (sumv0, sumv1) of
           Inl e \<Rightarrow> Inl e
         | Inr (ib, sumv0, sumv1) \<Rightarrow>
             scalar_loop fo nb x y ib (fadd fo (vaddvq_f32 fo sumv0) (vaddvq_f32 fo sumv1)))"

text \<open>\<open>vec_dot_q4_0_q8_0_optimized\<close> (lines 106-191).\<close>

definition vec_dot_q4_0_q8_0_optimized ::
  "'f fops \<Rightarrow> int \<Rightarrow> block_q4_0 list \<Rightarrow> block_q8_0 list \<Rightarrow> error + 'f" where
  "vec_dot_q4_0_q8_0_optimized fo n x y =
     (let qk = int QK4_0;
          nb = n sdiv qk;
          sumv0 = vdupq_n_f32 (fzero fo);
          sumv1 = vdupq_n_f32 (fzero fo);
          sumv2 = vdupq_n_f32 (fzero fo);
          sumv3 = vdupq_n_f32 (fzero fo)
      in case optimized_quad_loop fo nb x y 0 (sumv0, sumv1, sumv2, sumv3) of
           Inl e \<Rightarrow> Inl e
         | Inr (ib, sumv0, sumv1, sumv2, sumv3) \<Rightarrow>
             (let sumv0 = vaddq_f32 fo (vaddq_f32 fo sumv0 sumv1) (vaddq_f32 fo sumv2 sumv3);
                  sumf = vaddvq_f32 fo sumv0;
                  sv0 = vdupq_n_f32 (fzero fo);
                  sv1 = vdupq_n_f32 (fzero fo)
              in case optimized_pair_loop fo nb x y ib (sv0, sv1) of
                   Inl e \<Rightarrow> Inl e
                 | Inr (ib, sv0, sv1) \<Rightarrow>
                     scalar_loop fo nb x y ib
                       (fadd fo sumf (fadd fo (vaddvq_f32 fo sv0) (vaddvq_f32 fo sv1)))))"

subsection \<open>The call as a program on the memory\<close>

text \<open>
  The two functions above give the value a call computes from the two arrays. This
  section reads the same source text as a program that runs on a memory and returns
  the memory it leaves behind. The memory has four parts: the array behind \<open>vx\<close>, the
  array behind \<open>vy\<close>, the \<open>float\<close> that \<open>s\<close> points to (\<open>__restrict__\<close>: \<open>s\<close> does not
  alias the inputs), and everything else the process holds (static data and the heap).
  A statement of the program is a function from a memory to an error or to a value and
  the memory after the statement; \<open>seq\<close> runs a statement and hands its value and its
  memory to the rest of the program.
\<close>

record ('f, 'h) memory =
  mem_vx :: "block_q4_0 list"
  mem_vy :: "block_q8_0 list"
  mem_s :: 'f
  mem_other :: 'h

type_synonym ('f, 'h, 'a) stmt = "('f, 'h) memory \<Rightarrow> error + ('a \<times> ('f, 'h) memory)"

definition ret :: "'a \<Rightarrow> ('f, 'h, 'a) stmt" where
  "ret v mem = Inr (v, mem)"

definition seq :: "('f, 'h, 'a) stmt \<Rightarrow> ('a \<Rightarrow> ('f, 'h, 'b) stmt) \<Rightarrow> ('f, 'h, 'b) stmt" where
  "seq p q mem = (case p mem of Inl e \<Rightarrow> Inl e | Inr (v, mem') \<Rightarrow> q v mem')"

text \<open>
  The three accesses to memory that occur in the kernels: reading block \<open>ib\<close> of the
  weight array (\<^verbatim>\<open>x[ib]\<close>, its \<open>qs\<close> and its \<open>d\<close>), reading block \<open>ib\<close> of the
  activation array (\<^verbatim>\<open>y[ib]\<close>), and the assignment \<^verbatim>\<open>*s = sumf\<close> (lines 102 and 190).
\<close>

definition load_x :: "int \<Rightarrow> ('f, 'h, block_q4_0) stmt" where
  "load_x ib mem =
     (if readable (mem_vx mem) ib 1 then Inr (blk (mem_vx mem) ib, mem) else Inl OutOfBounds)"

definition load_y :: "int \<Rightarrow> ('f, 'h, block_q8_0) stmt" where
  "load_y ib mem =
     (if readable (mem_vy mem) ib 1 then Inr (blk (mem_vy mem) ib, mem) else Inl OutOfBounds)"

definition store_s :: "'f \<Rightarrow> ('f, 'h, unit) stmt" where
  "store_s v mem = Inr ((), mem\<lparr>mem_s := v\<rparr>)"

text \<open>One iteration of the two-block loop of the original kernel (lines 56-86).\<close>

definition original_pair_iteration ::
  "'f fops \<Rightarrow> int \<Rightarrow> 'f vec4 \<times> 'f vec4 \<Rightarrow> ('f, 'h, 'f vec4 \<times> 'f vec4) stmt" where
  "original_pair_iteration fo ib acc =
     seq (load_x (ib + 0)) (\<lambda>x0.
     seq (load_x (ib + 1)) (\<lambda>x1.
     seq (load_y (ib + 0)) (\<lambda>y0.
     seq (load_y (ib + 1)) (\<lambda>y1.
     ret (original_pair_body fo x0 x1 y0 y1 acc)))))"

text \<open>One iteration of the two-block remainder loop of the optimized kernel (lines 161-174).\<close>

definition optimized_pair_iteration ::
  "'f fops \<Rightarrow> int \<Rightarrow> 'f vec4 \<times> 'f vec4 \<Rightarrow> ('f, 'h, 'f vec4 \<times> 'f vec4) stmt" where
  "optimized_pair_iteration fo ib acc =
     seq (load_x ib) (\<lambda>x0.
     seq (load_x (ib + 1)) (\<lambda>x1.
     seq (load_y ib) (\<lambda>y0.
     seq (load_y (ib + 1)) (\<lambda>y1.
     ret (optimized_pair_body fo x0 x1 y0 y1 acc)))))"

text \<open>
  One iteration of the four-block loop (lines 126-148): four times \<open>PROCESS_BLOCK\<close>,
  each reading its weight block and its activation block.
\<close>

definition process_block_stmt :: "'f fops \<Rightarrow> int \<Rightarrow> 'f vec4 \<Rightarrow> ('f, 'h, 'f vec4) stmt" where
  "process_block_stmt fo i ACC =
     seq (load_x i) (\<lambda>xb.
     seq (load_y i) (\<lambda>yb.
     ret (PROCESS_BLOCK fo xb yb ACC)))"

definition optimized_quad_iteration ::
  "'f fops \<Rightarrow> int \<Rightarrow> 'f vec4 \<times> 'f vec4 \<times> 'f vec4 \<times> 'f vec4
     \<Rightarrow> ('f, 'h, 'f vec4 \<times> 'f vec4 \<times> 'f vec4 \<times> 'f vec4) stmt" where
  "optimized_quad_iteration fo ib acc =
     (case acc of (sumv0, sumv1, sumv2, sumv3) \<Rightarrow>
        seq (process_block_stmt fo (ib + 0) sumv0) (\<lambda>sumv0.
        seq (process_block_stmt fo (ib + 1) sumv1) (\<lambda>sumv1.
        seq (process_block_stmt fo (ib + 2) sumv2) (\<lambda>sumv2.
        seq (process_block_stmt fo (ib + 3) sumv3) (\<lambda>sumv3.
        ret (sumv0, sumv1, sumv2, sumv3))))))"

text \<open>One iteration of the scalar remainder loop (lines 92-99 and 180-187).\<close>

definition scalar_iteration :: "'f fops \<Rightarrow> int \<Rightarrow> 'f \<Rightarrow> ('f, 'h, 'f) stmt" where
  "scalar_iteration fo ib sumf =
     seq (load_x ib) (\<lambda>xb.
     seq (load_y ib) (\<lambda>yb.
     ret (fadd fo sumf
            (fmul fo
               (fmul fo (s32_to_f32 fo (scalar_block_sum xb yb)) (fp16_to_fp32 fo (q4_d xb)))
               (fp16_to_fp32 fo (q8_d yb))))))"

text \<open>The four loops, each running its iteration on the memory the previous one left.\<close>

function run_original_pair_loop ::
  "'f fops \<Rightarrow> int \<Rightarrow> int \<Rightarrow> 'f vec4 \<times> 'f vec4 \<Rightarrow> ('f, 'h, int \<times> 'f vec4 \<times> 'f vec4) stmt" where
  "run_original_pair_loop fo nb ib acc mem =
     (if ib + 1 < nb then
        (case original_pair_iteration fo ib acc mem of
           Inl e \<Rightarrow> Inl e
         | Inr (acc', mem') \<Rightarrow> run_original_pair_loop fo nb (ib + 2) acc' mem')
      else Inr ((ib, acc), mem))"
  by pat_completeness auto
termination
  by (relation "measure (\<lambda>(fo, nb, ib, acc, mem). nat (nb - ib))") auto

function run_optimized_pair_loop ::
  "'f fops \<Rightarrow> int \<Rightarrow> int \<Rightarrow> 'f vec4 \<times> 'f vec4 \<Rightarrow> ('f, 'h, int \<times> 'f vec4 \<times> 'f vec4) stmt" where
  "run_optimized_pair_loop fo nb ib acc mem =
     (if ib + 1 < nb then
        (case optimized_pair_iteration fo ib acc mem of
           Inl e \<Rightarrow> Inl e
         | Inr (acc', mem') \<Rightarrow> run_optimized_pair_loop fo nb (ib + 2) acc' mem')
      else Inr ((ib, acc), mem))"
  by pat_completeness auto
termination
  by (relation "measure (\<lambda>(fo, nb, ib, acc, mem). nat (nb - ib))") auto

function run_optimized_quad_loop ::
  "'f fops \<Rightarrow> int \<Rightarrow> int \<Rightarrow> 'f vec4 \<times> 'f vec4 \<times> 'f vec4 \<times> 'f vec4
     \<Rightarrow> ('f, 'h, int \<times> 'f vec4 \<times> 'f vec4 \<times> 'f vec4 \<times> 'f vec4) stmt" where
  "run_optimized_quad_loop fo nb ib acc mem =
     (if ib + 3 < nb then
        (case optimized_quad_iteration fo ib acc mem of
           Inl e \<Rightarrow> Inl e
         | Inr (acc', mem') \<Rightarrow> run_optimized_quad_loop fo nb (ib + 4) acc' mem')
      else Inr ((ib, acc), mem))"
  by pat_completeness auto
termination
  by (relation "measure (\<lambda>(fo, nb, ib, acc, mem). nat (nb - ib))") auto

function run_scalar_loop :: "'f fops \<Rightarrow> int \<Rightarrow> int \<Rightarrow> 'f \<Rightarrow> ('f, 'h, 'f) stmt" where
  "run_scalar_loop fo nb ib sumf mem =
     (if ib < nb then
        (case scalar_iteration fo ib sumf mem of
           Inl e \<Rightarrow> Inl e
         | Inr (sumf', mem') \<Rightarrow> run_scalar_loop fo nb (ib + 1) sumf' mem')
      else Inr (sumf, mem))"
  by pat_completeness auto
termination
  by (relation "measure (\<lambda>(fo, nb, ib, sumf, mem). nat (nb - ib))") auto

text \<open>
  A call of \<open>vec_dot_q4_0_q8_0_original\<close> (lines 42-103) on a memory: the two loops, then
  the one assignment through \<open>s\<close>. The result is the memory after the call, or the
  error of a read outside the arrays.
\<close>

definition call_original :: "'f fops \<Rightarrow> int \<Rightarrow> ('f, 'h) memory \<Rightarrow> error + ('f, 'h) memory" where
  "call_original fo n mem =
     (let qk = int QK4_0;
          nb = n sdiv qk;
          sumv0 = vdupq_n_f32 (fzero fo);
          sumv1 = vdupq_n_f32 (fzero fo);
          prog =
            seq (run_original_pair_loop fo nb 0 (sumv0, sumv1)) (\<lambda>(ib, sumv0, sumv1).
            seq (run_scalar_loop fo nb ib (fadd fo (vaddvq_f32 fo sumv0) (vaddvq_f32 fo sumv1))) (\<lambda>sumf.
            store_s sumf))
      in case prog mem of Inl e \<Rightarrow> Inl e | Inr (u, mem') \<Rightarrow> Inr mem')"

text \<open>A call of \<open>vec_dot_q4_0_q8_0_optimized\<close> (lines 106-191) on a memory.\<close>

definition call_optimized :: "'f fops \<Rightarrow> int \<Rightarrow> ('f, 'h) memory \<Rightarrow> error + ('f, 'h) memory" where
  "call_optimized fo n mem =
     (let qk = int QK4_0;
          nb = n sdiv qk;
          sumv0 = vdupq_n_f32 (fzero fo);
          sumv1 = vdupq_n_f32 (fzero fo);
          sumv2 = vdupq_n_f32 (fzero fo);
          sumv3 = vdupq_n_f32 (fzero fo);
          prog =
            seq (run_optimized_quad_loop fo nb 0 (sumv0, sumv1, sumv2, sumv3)) (\<lambda>(ib, sumv0, sumv1, sumv2, sumv3).
              (let sumv0 = vaddq_f32 fo (vaddq_f32 fo sumv0 sumv1) (vaddq_f32 fo sumv2 sumv3);
                   sumf = vaddvq_f32 fo sumv0;
                   sv0 = vdupq_n_f32 (fzero fo);
                   sv1 = vdupq_n_f32 (fzero fo)
               in seq (run_optimized_pair_loop fo nb ib (sv0, sv1)) (\<lambda>(ib, sv0, sv1).
                  seq (run_scalar_loop fo nb ib
                         (fadd fo sumf (fadd fo (vaddvq_f32 fo sv0) (vaddvq_f32 fo sv1)))) (\<lambda>sumf.
                  store_s sumf))))
      in case prog mem of Inl e \<Rightarrow> Inl e | Inr (u, mem') \<Rightarrow> Inr mem')"


section \<open>Definitions used in the statements and proofs\<close>

subsection \<open>Rounding, split into exponent and significand\<close>

text \<open>
  \<open>round_exp\<close> and \<open>round_sig\<close> are the exponent and the significand that \<open>f32_round\<close>
  computes for a non-zero argument. A value is regular when it is a binary32 number
  other than \<open>-0.0\<close>; \<open>is_zero\<close> holds for the two zeros. \<open>mag m e\<close> is the magnitude
  \<open>m * 2^e\<close> as a real number, and \<open>normal_in lo hi v\<close> says that \<open>v\<close> is a normal binary32
  number (24 significant bits) whose exponent lies between \<open>lo\<close> and \<open>hi\<close>.
  \<open>below k v\<close> says that \<open>v\<close> is a finite binary32 number of magnitude at most \<open>2^k\<close>,
  and \<open>below4\<close> says so of the four lanes of a register.
\<close>

definition round_exp :: "int \<Rightarrow> int \<Rightarrow> int" where
  "round_exp m e = max (e + bitlen m - 24) (- 149)"

definition round_sig :: "int \<Rightarrow> int \<Rightarrow> int" where
  "round_sig m e =
     (if round_exp m e \<le> e then m * 2 ^ nat (e - round_exp m e)
      else rne_shift m (nat (round_exp m e - e)))"

definition f32_regular :: "f32 \<Rightarrow> bool" where
  "f32_regular v \<longleftrightarrow> f32_canonical v \<and> v \<noteq> f32_nzero"

definition is_zero :: "f32 \<Rightarrow> bool" where
  "is_zero v \<longleftrightarrow> v = f32_pzero \<or> v = f32_nzero"

definition mag :: "int \<Rightarrow> int \<Rightarrow> real" where
  "mag m e = real_of_int m * 2 powi e"

definition normal_in :: "int \<Rightarrow> int \<Rightarrow> f32 \<Rightarrow> bool" where
  "normal_in lo hi v =
     (case v of Finite s m e \<Rightarrow> 2 ^ 23 \<le> m \<and> m < 2 ^ 24 \<and> lo \<le> e \<and> e \<le> hi
      | Infinity s \<Rightarrow> False | NaN \<Rightarrow> False)"

definition below :: "nat \<Rightarrow> f32 \<Rightarrow> bool" where
  "below k v \<longleftrightarrow> f32_canonical v \<and> is_finite v \<and> \<bar>f32_val v\<bar> \<le> 2 ^ k"

definition below4 :: "nat \<Rightarrow> f32 vec4 \<Rightarrow> bool" where
  "below4 k v = (case v of Vec4 a b c d \<Rightarrow> below k a \<and> below k b \<and> below k c \<and> below k d)"

subsection \<open>The kernels with the integer part written as the paired sums\<close>

text \<open>
  The pairing rule of the format as a computation of its own, to compare the kernels
  with. \<open>paired_block_sum\<close> is the sum of the 32 products of a block pair in which the
  low nibble of byte \<open>j\<close> meets activation \<open>j\<close> and the high nibble of byte \<open>j\<close> meets
  activation \<open>j + 16\<close>; \<open>paired_lanes\<close> holds the same products summed over the bytes
  \<open>0..3\<close>, \<open>4..7\<close>, \<open>8..11\<close> and \<open>12..15\<close>. \<open>paired_accumulate\<close> adds a block pair to a
  vector accumulator and \<open>paired_add\<close> adds it to a scalar sum, both from these sums
  and the two scales. \<open>paired_original nb x y\<close> runs over the block pairs the way the
  original kernel does: \<open>nb div 2\<close> times two block pairs into two accumulators, the
  two lane sums added, then the block pairs that are left one at a time.
  \<open>paired_optimized\<close> does the same with four accumulators first. No byte is masked,
  shifted or loaded here: the only integer data are the sums of the contract.
\<close>

definition paired_lanes :: "block_q4_0 \<Rightarrow> block_q8_0 \<Rightarrow> 32 word vec4" where
  "paired_lanes xb yb =
     Vec4 (word_of_int (\<Sum>j\<leftarrow>[0, 1, 2, 3]. weight_lo xb j * activation yb j + weight_hi xb j * activation yb (j + 16)))
          (word_of_int (\<Sum>j\<leftarrow>[4, 5, 6, 7]. weight_lo xb j * activation yb j + weight_hi xb j * activation yb (j + 16)))
          (word_of_int (\<Sum>j\<leftarrow>[8, 9, 10, 11]. weight_lo xb j * activation yb j + weight_hi xb j * activation yb (j + 16)))
          (word_of_int (\<Sum>j\<leftarrow>[12, 13, 14, 15]. weight_lo xb j * activation yb j + weight_hi xb j * activation yb (j + 16)))"

definition paired_block_sum :: "block_q4_0 \<Rightarrow> block_q8_0 \<Rightarrow> int" where
  "paired_block_sum xb yb =
     (\<Sum>j\<leftarrow>[0 ..< 16]. weight_lo xb j * activation yb j)
     + (\<Sum>j\<leftarrow>[0 ..< 16]. weight_hi xb j * activation yb (j + 16))"

definition paired_accumulate ::
  "'f fops \<Rightarrow> block_q4_0 \<Rightarrow> block_q8_0 \<Rightarrow> 'f vec4 \<Rightarrow> 'f vec4" where
  "paired_accumulate fo xb yb ACC =
     vmlaq_n_f32 fo ACC (vcvtq_f32_s32 fo (paired_lanes xb yb))
       (fmul fo (fp16_to_fp32 fo (q4_d xb)) (fp16_to_fp32 fo (q8_d yb)))"

definition paired_add :: "'f fops \<Rightarrow> block_q4_0 \<Rightarrow> block_q8_0 \<Rightarrow> 'f \<Rightarrow> 'f" where
  "paired_add fo xb yb sumf =
     fadd fo sumf
       (fmul fo
          (fmul fo (s32_to_f32 fo (word_of_int (paired_block_sum xb yb))) (fp16_to_fp32 fo (q4_d xb)))
          (fp16_to_fp32 fo (q8_d yb)))"

definition paired_pair_step ::
  "'f fops \<Rightarrow> block_q4_0 list \<Rightarrow> block_q8_0 list \<Rightarrow> nat \<Rightarrow> nat \<Rightarrow> 'f vec4 \<times> 'f vec4 \<Rightarrow> 'f vec4 \<times> 'f vec4" where
  "paired_pair_step fo x y b p acc =
     (case acc of (s0, s1) \<Rightarrow>
        (paired_accumulate fo (x ! (b + 2 * p)) (y ! (b + 2 * p)) s0,
         paired_accumulate fo (x ! (b + 2 * p + 1)) (y ! (b + 2 * p + 1)) s1))"

definition paired_quad_step ::
  "'f fops \<Rightarrow> block_q4_0 list \<Rightarrow> block_q8_0 list \<Rightarrow> nat
     \<Rightarrow> 'f vec4 \<times> 'f vec4 \<times> 'f vec4 \<times> 'f vec4 \<Rightarrow> 'f vec4 \<times> 'f vec4 \<times> 'f vec4 \<times> 'f vec4" where
  "paired_quad_step fo x y q acc =
     (case acc of (a0, a1, a2, a3) \<Rightarrow>
        (paired_accumulate fo (x ! (4 * q)) (y ! (4 * q)) a0,
         paired_accumulate fo (x ! (4 * q + 1)) (y ! (4 * q + 1)) a1,
         paired_accumulate fo (x ! (4 * q + 2)) (y ! (4 * q + 2)) a2,
         paired_accumulate fo (x ! (4 * q + 3)) (y ! (4 * q + 3)) a3))"

definition paired_scalar_step :: "'f fops \<Rightarrow> block_q4_0 list \<Rightarrow> block_q8_0 list \<Rightarrow> nat \<Rightarrow> 'f \<Rightarrow> 'f" where
  "paired_scalar_step fo x y k sumf = paired_add fo (x ! k) (y ! k) sumf"

definition paired_original :: "'f fops \<Rightarrow> nat \<Rightarrow> block_q4_0 list \<Rightarrow> block_q8_0 list \<Rightarrow> 'f" where
  "paired_original fo nb x y =
     (case fold (paired_pair_step fo x y 0) [0 ..< nb div 2] (vdupq_n_f32 (fzero fo), vdupq_n_f32 (fzero fo)) of
        (s0, s1) \<Rightarrow>
          fold (paired_scalar_step fo x y) [2 * (nb div 2) ..< nb]
            (fadd fo (vaddvq_f32 fo s0) (vaddvq_f32 fo s1)))"

definition paired_optimized :: "'f fops \<Rightarrow> nat \<Rightarrow> block_q4_0 list \<Rightarrow> block_q8_0 list \<Rightarrow> 'f" where
  "paired_optimized fo nb x y =
     (case fold (paired_quad_step fo x y) [0 ..< nb div 4]
             (vdupq_n_f32 (fzero fo), vdupq_n_f32 (fzero fo), vdupq_n_f32 (fzero fo), vdupq_n_f32 (fzero fo)) of
        (a0, a1, a2, a3) \<Rightarrow>
          (case fold (paired_pair_step fo x y (4 * (nb div 4))) [0 ..< (nb - 4 * (nb div 4)) div 2]
                  (vdupq_n_f32 (fzero fo), vdupq_n_f32 (fzero fo)) of
             (s0, s1) \<Rightarrow>
               fold (paired_scalar_step fo x y) [2 * (nb div 2) ..< nb]
                 (fadd fo (vaddvq_f32 fo (vaddq_f32 fo (vaddq_f32 fo a0 a1) (vaddq_f32 fo a2 a3)))
                    (fadd fo (vaddvq_f32 fo s0) (vaddvq_f32 fo s1)))))"

subsection \<open>The reference computation of the specification\<close>

text \<open>
  The specification describes the result by dequantization: element \<open>i\<close> of a weight
  block is \<open>(nibble_i - 8) * scale\<close>, with the low nibbles of the 16 bytes as elements
  0..15 and the high nibbles as elements 16..31; element \<open>i\<close> of an activation block is
  \<open>qs_i * scale\<close>. \<open>dequantized_dot\<close> multiplies the 32 element pairs of one block pair and
  sums them, over the reals. \<open>reference_dot\<close> is the same computation written over a
  record of floating-point operations, one operation per step: element \<open>i\<close> of each block
  is dequantized (\<open>dequantize_q4_0\<close>, \<open>dequantize_q8_0\<close>), the two elements are multiplied
  (\<open>reference_product\<close>) and the 32 products are added from left to right, starting from
  zero. With \<open>exact_ops\<close> it is \<open>dequantized_dot\<close>; with \<open>ieee_ops\<close> it is the reference
  as a binary32 program computes it. \<open>block_term\<close> is the exact number written as the integer
  partial sum times the two scales, and \<open>exact_dot dec x y i j\<close> adds the terms of the
  block pairs \<open>i .. j-1\<close>. \<open>hsum\<close> is the sum of the four lanes of a register, and
  \<open>fp16_value\<close> the real value of a finite binary16 scale.
\<close>

definition dequantize_row_q4_0 :: "(ggml_fp16_t \<Rightarrow> real) \<Rightarrow> block_q4_0 \<Rightarrow> real list" where
  "dequantize_row_q4_0 dec xb =
     map (\<lambda>j. real_of_int (weight_lo xb j) * dec (q4_d xb)) [0 ..< 16]
     @ map (\<lambda>j. real_of_int (weight_hi xb j) * dec (q4_d xb)) [0 ..< 16]"

definition dequantize_row_q8_0 :: "(ggml_fp16_t \<Rightarrow> real) \<Rightarrow> block_q8_0 \<Rightarrow> real list" where
  "dequantize_row_q8_0 dec yb = map (\<lambda>i. real_of_int (activation yb i) * dec (q8_d yb)) [0 ..< 32]"

definition dequantized_dot :: "(ggml_fp16_t \<Rightarrow> real) \<Rightarrow> block_q4_0 \<Rightarrow> block_q8_0 \<Rightarrow> real" where
  "dequantized_dot dec xb yb =
     sum_list (map2 (*) (dequantize_row_q4_0 dec xb) (dequantize_row_q8_0 dec yb))"

definition dequantize_q4_0 :: "'f fops \<Rightarrow> block_q4_0 \<Rightarrow> nat \<Rightarrow> 'f" where
  "dequantize_q4_0 fo xb i =
     fmul fo (s32_to_f32 fo (word_of_int (if i < 16 then weight_lo xb i else weight_hi xb (i - 16))))
       (fp16_to_fp32 fo (q4_d xb))"

definition dequantize_q8_0 :: "'f fops \<Rightarrow> block_q8_0 \<Rightarrow> nat \<Rightarrow> 'f" where
  "dequantize_q8_0 fo yb i = fmul fo (s32_to_f32 fo (word_of_int (activation yb i))) (fp16_to_fp32 fo (q8_d yb))"

definition reference_product :: "'f fops \<Rightarrow> block_q4_0 \<Rightarrow> block_q8_0 \<Rightarrow> nat \<Rightarrow> 'f" where
  "reference_product fo xb yb i = fmul fo (dequantize_q4_0 fo xb i) (dequantize_q8_0 fo yb i)"

definition reference_dot :: "'f fops \<Rightarrow> block_q4_0 \<Rightarrow> block_q8_0 \<Rightarrow> 'f" where
  "reference_dot fo xb yb = foldl (fadd fo) (fzero fo) (map (reference_product fo xb yb) [0 ..< 32])"

definition block_term :: "(ggml_fp16_t \<Rightarrow> real) \<Rightarrow> block_q4_0 \<Rightarrow> block_q8_0 \<Rightarrow> real" where
  "block_term dec xb yb = real_of_int (pair_sum xb yb [0 ..< 16]) * dec (q4_d xb) * dec (q8_d yb)"

definition exact_dot :: "(ggml_fp16_t \<Rightarrow> real) \<Rightarrow> block_q4_0 list \<Rightarrow> block_q8_0 list \<Rightarrow> nat \<Rightarrow> nat \<Rightarrow> real" where
  "exact_dot dec x y i j = (\<Sum>k\<leftarrow>[i ..< j]. block_term dec (x ! k) (y ! k))"

definition hsum :: "real vec4 \<Rightarrow> real" where
  "hsum v = (case v of Vec4 a b c d \<Rightarrow> a + b + c + d)"

definition fp16_value :: "ggml_fp16_t \<Rightarrow> real" where
  "fp16_value h = f32_val (f32_of_fp16 h)"

subsection \<open>Preconditions of a call\<close>

text \<open>
  \<open>valid_vectors n x y\<close>: both arrays hold at least \<open>n / 32\<close> blocks and every block has
  its 16 respectively 32 bytes. \<open>finite_scales\<close>: no stored scale is an infinity or a
  NaN. \<open>weights_all_zero\<close>: every weight byte is \<open>0x88\<close>, both nibbles 8, so every weight
  decodes to 0. \<open>activations_all_zero\<close>: every activation byte is 0.
\<close>

definition valid_vectors :: "int \<Rightarrow> block_q4_0 list \<Rightarrow> block_q8_0 list \<Rightarrow> bool" where
  "valid_vectors n x y \<longleftrightarrow>
     n sdiv 32 \<le> int (length x) \<and> n sdiv 32 \<le> int (length y)
     \<and> list_all wf_q4_0 x \<and> list_all wf_q8_0 y"

definition finite_scales :: "block_q4_0 list \<Rightarrow> block_q8_0 list \<Rightarrow> bool" where
  "finite_scales x y \<longleftrightarrow>
     list_all (\<lambda>xb. is_finite (f32_of_fp16 (q4_d xb))) x \<and> list_all (\<lambda>yb. is_finite (f32_of_fp16 (q8_d yb))) y"

definition scales_in_range :: "real \<Rightarrow> real \<Rightarrow> block_q4_0 list \<Rightarrow> block_q8_0 list \<Rightarrow> bool" where
  "scales_in_range lo hi x y \<longleftrightarrow>
     list_all (\<lambda>xb. lo \<le> f32_val (f32_of_fp16 (q4_d xb)) \<and> f32_val (f32_of_fp16 (q4_d xb)) \<le> hi) x
     \<and> list_all (\<lambda>yb. lo \<le> f32_val (f32_of_fp16 (q8_d yb)) \<and> f32_val (f32_of_fp16 (q8_d yb)) \<le> hi) y"

definition weights_all_zero :: "block_q4_0 list \<Rightarrow> bool" where
  "weights_all_zero x \<longleftrightarrow> list_all (\<lambda>xb. list_all (\<lambda>q. q = 0x88) (q4_qs xb)) x"

definition activations_all_zero :: "block_q8_0 list \<Rightarrow> bool" where
  "activations_all_zero y \<longleftrightarrow> list_all (\<lambda>yb. list_all (\<lambda>b. b = 0) (q8_qs yb)) y"

definition zero_pair :: "block_q4_0 \<Rightarrow> block_q8_0 \<Rightarrow> bool" where
  "zero_pair xb yb \<longleftrightarrow>
     wf_q4_0 xb \<and> wf_q8_0 yb \<and> is_finite (f32_of_fp16 (q4_d xb)) \<and> is_finite (f32_of_fp16 (q8_d yb))
     \<and> (list_all (\<lambda>q. q = 0x88) (q4_qs xb) \<or> list_all (\<lambda>b. b = 0) (q8_qs yb))"

subsection \<open>Agreement of two results\<close>

text \<open>
  \<open>relative_error_below tol a b\<close>: both results are finite and \<open>a\<close> differs from the
  baseline \<open>b\<close> by less than \<open>tol\<close> times the magnitude of \<open>b\<close> (or not at all).
\<close>

definition relative_error_below :: "real \<Rightarrow> f32 \<Rightarrow> f32 \<Rightarrow> bool" where
  "relative_error_below tol a b \<longleftrightarrow>
     is_finite a \<and> is_finite b
     \<and> (f32_val a = f32_val b \<or> \<bar>f32_val a - f32_val b\<bar> < tol * \<bar>f32_val b\<bar>)"

subsection \<open>Concrete inputs\<close>

text \<open>
  \<^item> \<open>X0\<close>, \<open>Y0\<close>: one block pair with scales 1.0; every weight byte is \<open>0x1F\<close> (weights 7
    and -7), the activations are 1 in the first half and 2 in the second.
  \<^item> \<open>X2\<close>, \<open>Y2\<close>: four block pairs with scales 8.0 (\<open>0x4800\<close>) and about 0.01
    (\<open>0x211F\<close>). Blocks 0 and 2 contribute \<open>+2080768\<close> and \<open>-2080768\<close>, blocks 1 and 3
    about \<open>0.0032\<close> each.
  \<^item> \<open>X4\<close>, \<open>Y4\<close>: one block pair with the weight scale \<open>0x7C00\<close>, the binary16
    infinity; the first weight byte is \<open>0x88\<close> (two weights 0), the others \<open>0xFF\<close> (weights
    7); all activations are 1 and the activation scale is 1.0.
  \<^item> \<open>X5\<close>, \<open>Y5\<close>: one block pair, all weights and all activations zero, and the weight
    scale \<open>0x7C00\<close>, the binary16 infinity. \<open>X5f\<close> is \<open>X5\<close> with the scale 1.0.
  \<^item> \<open>X6\<close>, \<open>Y6\<close>: one block pair, all weights 7, activations 127 except the last, 126;
    weight scale 1.0, activation scale \<open>1 + 2^-10\<close>.
  \<^item> \<open>X7\<close>, \<open>Y7\<close>: seven block pairs with scales 1.0 and 0.5. Block \<open>k\<close> holds sixteen
    different weight bytes rotated by \<open>k\<close> and 32 activations of alternating sign rotated
    by \<open>3k\<close>, so that every lane and every block has its own sum.
  \<^item> \<open>X8\<close>, \<open>Y8\<close>: three block pairs with scales between 0.5 and 3.
  \<^item> \<open>M0\<close>: a memory holding \<open>X0\<close>, \<open>Y0\<close>, a NaN at the output location and three numbers
    elsewhere. \<open>M0b\<close>: the same two arrays, with \<open>+0.0\<close> at the output location and
    nothing elsewhere.
\<close>

definition X0 :: block_q4_0 where "X0 = \<lparr>q4_d = 0x3C00, q4_qs = replicate 16 0x1F\<rparr>"

definition Y0 :: block_q8_0 where "Y0 = \<lparr>q8_d = 0x3C00, q8_qs = replicate 16 1 @ replicate 16 2\<rparr>"

definition X2 :: "block_q4_0 list" where
  "X2 = [\<lparr>q4_d = 0x4800, q4_qs = replicate 16 0x00\<rparr>, \<lparr>q4_d = 0x211F, q4_qs = replicate 16 0x99\<rparr>,
         \<lparr>q4_d = 0x4800, q4_qs = replicate 16 0x00\<rparr>, \<lparr>q4_d = 0x211F, q4_qs = replicate 16 0x99\<rparr>]"

definition Y2 :: "block_q8_0 list" where
  "Y2 = [\<lparr>q8_d = 0x4800, q8_qs = replicate 32 0x81\<rparr>, \<lparr>q8_d = 0x211F, q8_qs = replicate 32 0x01\<rparr>,
         \<lparr>q8_d = 0x4800, q8_qs = replicate 32 0x7F\<rparr>, \<lparr>q8_d = 0x211F, q8_qs = replicate 32 0x01\<rparr>]"

definition X4 :: "block_q4_0 list" where
  "X4 = [\<lparr>q4_d = 0x7C00, q4_qs = 0x88 # replicate 15 0xFF\<rparr>]"

definition Y4 :: "block_q8_0 list" where
  "Y4 = [\<lparr>q8_d = 0x3C00, q8_qs = replicate 32 1\<rparr>]"

definition X5 :: "block_q4_0 list" where
  "X5 = [\<lparr>q4_d = 0x7C00, q4_qs = replicate 16 0x88\<rparr>]"

definition Y5 :: "block_q8_0 list" where
  "Y5 = [\<lparr>q8_d = 0x3C00, q8_qs = replicate 32 0\<rparr>]"

definition X5f :: "block_q4_0 list" where
  "X5f = [\<lparr>q4_d = 0x3C00, q4_qs = replicate 16 0x88\<rparr>]"

definition X6 :: "block_q4_0 list" where
  "X6 = [\<lparr>q4_d = 0x3C00, q4_qs = replicate 16 0xFF\<rparr>]"

definition Y6 :: "block_q8_0 list" where
  "Y6 = [\<lparr>q8_d = 0x3C01, q8_qs = replicate 31 0x7F @ [0x7E]\<rparr>]"

definition X7 :: "block_q4_0 list" where
  "X7 = map (\<lambda>k. \<lparr>q4_d = 0x3C00,
                     q4_qs = rotate k [0x1F, 0x2E, 0x3D, 0x4C, 0x5B, 0x6A, 0x79, 0x88,
                                       0x97, 0xA6, 0xB5, 0xC4, 0xD3, 0xE2, 0xF1, 0x00]\<rparr>) [0 ..< 7]"

definition Y7 :: "block_q8_0 list" where
  "Y7 = map (\<lambda>k. \<lparr>q8_d = 0x3800,
                     q8_qs = rotate (3 * k) [0x01, 0xFE, 0x03, 0xFC, 0x05, 0xFA, 0x07, 0xF8,
                                             0x09, 0xF6, 0x0B, 0xF4, 0x0D, 0xF2, 0x0F, 0xF0,
                                             0x11, 0xEE, 0x13, 0xEC, 0x15, 0xEA, 0x17, 0xE8,
                                             0x19, 0xE6, 0x1B, 0xE4, 0x1D, 0xE2, 0x1F, 0xE0]\<rparr>) [0 ..< 7]"

definition X8 :: "block_q4_0 list" where
  "X8 = [\<lparr>q4_d = 0x3C00, q4_qs = replicate 16 0x1F\<rparr>, \<lparr>q4_d = 0x4000, q4_qs = replicate 16 0x2E\<rparr>,
         \<lparr>q4_d = 0x3800, q4_qs = replicate 16 0x97\<rparr>]"

definition Y8 :: "block_q8_0 list" where
  "Y8 = [\<lparr>q8_d = 0x3C00, q8_qs = replicate 16 1 @ replicate 16 2\<rparr>,
         \<lparr>q8_d = 0x3800, q8_qs = replicate 16 3 @ replicate 16 1\<rparr>,
         \<lparr>q8_d = 0x4200, q8_qs = replicate 16 0xFF @ replicate 16 2\<rparr>]"

definition M0 :: "(f32, nat list) memory" where
  "M0 = \<lparr>mem_vx = [X0], mem_vy = [Y0], mem_s = NaN, mem_other = [1, 2, 3]\<rparr>"

definition M0b :: "(f32, nat list) memory" where
  "M0b = \<lparr>mem_vx = [X0], mem_vy = [Y0], mem_s = f32_pzero, mem_other = []\<rparr>"

section \<open>Lemmas\<close>

subsection \<open>Nibble decoding\<close>

lemma unat8_less: "unat (q::8 word) < 256" 
  using unsigned_less[of q, where 'a=nat] by simp

lemma sint32_of_int: "- (2 ^ 31) \<le> k \<Longrightarrow> k < 2 ^ 31 \<Longrightarrow> sint (word_of_int k :: 32 word) = k"
  by (simp add: signed_of_int signed_take_bit_int_eq_self)

lemma sint8_of_int: "- (2 ^ 7) \<le> k \<Longrightarrow> k < 2 ^ 7 \<Longrightarrow> sint (word_of_int k :: 8 word) = k"
  by (simp add: signed_of_int signed_take_bit_int_eq_self)

lemma and15_32: "(ucast (q::8 word) :: 32 word) AND 0x0F = word_of_nat (unat q mod 16)"
proof -
  have "(0x0F :: 32 word) = mask 4" by (simp add: mask_eq_exp_minus_1)
  then have "(ucast q :: 32 word) AND 0x0F = take_bit 4 (ucast q)" by (simp add: take_bit_eq_mask)
  also have "\<dots> = word_of_nat (take_bit 4 (unat q))"
    by (metis of_nat_unat take_bit_of_nat)
  finally show ?thesis by (simp add: take_bit_eq_mod)
qed

lemma and15_8: "(q::8 word) AND 0x0F = word_of_nat (unat q mod 16)"
proof -
  have "(0x0F :: 8 word) = mask 4" by (simp add: mask_eq_exp_minus_1)
  then have "q AND 0x0F = take_bit 4 q" by (simp add: take_bit_eq_mask)
  also have "\<dots> = word_of_nat (take_bit 4 (unat q))"
    by (metis of_nat_unat take_bit_of_nat ucast_id)
  finally show ?thesis by (simp add: take_bit_eq_mod)
qed

lemma shr4_32: "drop_bit 4 (ucast (q::8 word) :: 32 word) = word_of_nat (unat q div 16)"
proof -
  have "unat (drop_bit 4 (ucast q :: 32 word)) = unat q div 16"
  proof -
    have "unat (ucast q :: 32 word) = unat q"
      by (simp add: unsigned_ucast_eq take_bit_nat_eq_self unat8_less [THEN less_trans])
    then show ?thesis by (simp add: drop_bit_eq_div unat_div)
  qed
  then show ?thesis by (metis of_nat_unat ucast_id)
qed

lemma shr4_8: "drop_bit 4 (q::8 word) = word_of_nat (unat q div 16)"
proof -
  have "unat (drop_bit 4 q) = unat q div 16"
    by (simp add: drop_bit_eq_div unat_div)
  then show ?thesis by (metis of_nat_unat ucast_id)
qed

lemma nibble_v0_eq: "nibble_v0 q = word_of_int (int (unat q mod 16) - 8)"
  by (simp add: nibble_v0_def and15_32)

lemma nibble_v1_eq: "nibble_v1 q = word_of_int (int (unat q div 16) - 8)"
  by (simp add: nibble_v1_def shr4_32)

lemma nibble_v0_sint: "sint (nibble_v0 q) = int (unat q mod 16) - 8"
  unfolding nibble_v0_eq by (rule sint32_of_int) simp_all

lemma nibble_v1_sint: "sint (nibble_v1 q) = int (unat q div 16) - 8"
  unfolding nibble_v1_eq using unat8_less [of q] by (intro sint32_of_int) simp_all

subsection \<open>Bounds of the integer partial sums\<close>

lemma prod_bound:
  fixes a b :: int
  assumes "- 8 \<le> a" "a \<le> 7" "- 128 \<le> b" "b \<le> 127"
  shows "- 1016 \<le> a * b \<and> a * b \<le> 1024"
proof -
  have "0 \<le> (a + 8) * (127 - b)" "0 \<le> (7 - a) * (b + 128)"
       "0 \<le> (a + 8) * (b + 128)" "0 \<le> (7 - a) * (127 - b)"
    using assms by simp_all
  then show ?thesis using assms by (simp add: algebra_simps)
qed

lemma weight_lo_range: "- 8 \<le> weight_lo xb j \<and> weight_lo xb j \<le> 7"
  unfolding weight_lo_def by (simp add: zmod_int)

lemma weight_hi_range: "- 8 \<le> weight_hi xb j \<and> weight_hi xb j \<le> 7"
  unfolding weight_hi_def using unat8_less [of "q4_qs xb ! j"] by simp

lemma activation_range: "- 128 \<le> activation yb i \<and> activation yb i \<le> 127"
  unfolding activation_def using sint_ge [of "q8_qs yb ! i"] sint_lt [of "q8_qs yb ! i"] by simp

lemma sum_list_prod_bound:
  fixes w a :: "nat \<Rightarrow> int"
  assumes w: "\<And>j. - 8 \<le> w j \<and> w j \<le> 7" and a: "\<And>j. - 128 \<le> a j \<and> a j \<le> 127"
  shows "- 1016 * int (length js) \<le> (\<Sum>j\<leftarrow>js. w j * a j) \<and> (\<Sum>j\<leftarrow>js. w j * a j) \<le> 1024 * int (length js)"
proof (induction js)
  case Nil
  then show ?case by simp
next
  case (Cons j js)
  have "- 1016 \<le> w j * a j \<and> w j * a j \<le> 1024"
    using w [of j] a [of j] by (intro prod_bound) simp_all
  with Cons show ?case by simp
qed

lemma pair_sum_bound:
  "- 2032 * int (length js) \<le> pair_sum xb yb js \<and> pair_sum xb yb js \<le> 2048 * int (length js)"
proof -
  have lo: "- 1016 * int (length js) \<le> (\<Sum>j\<leftarrow>js. weight_lo xb j * activation yb j)
      \<and> (\<Sum>j\<leftarrow>js. weight_lo xb j * activation yb j) \<le> 1024 * int (length js)"
    by (rule sum_list_prod_bound [where a = "activation yb"]) (rule weight_lo_range activation_range)+
  have hi: "- 1016 * int (length js) \<le> (\<Sum>j\<leftarrow>js. weight_hi xb j * activation yb (j + 16))
      \<and> (\<Sum>j\<leftarrow>js. weight_hi xb j * activation yb (j + 16)) \<le> 1024 * int (length js)"
    by (rule sum_list_prod_bound [where a = "\<lambda>j. activation yb (j + 16)"]) (rule weight_hi_range activation_range)+
  from lo hi show ?thesis unfolding pair_sum_def by linarith
qed

subsection \<open>The scalar loop computes the paired sum\<close>

lemma scalar_step_eq:
  "scalar_step (q4_qs xb) (q8_qs yb) j (a0, a1) =
     (a0 + word_of_int (weight_lo xb j * activation yb j),
      a1 + word_of_int (weight_hi xb j * activation yb (j + 16)))"
  by (simp add: scalar_step_def nibble_v0_eq nibble_v1_eq QK4_0_def
      weight_lo_def weight_hi_def activation_def)

lemma scalar_step_fold:
  "fold (scalar_step (q4_qs xb) (q8_qs yb)) js (a0, a1) =
     (a0 + word_of_int (\<Sum>j\<leftarrow>js. weight_lo xb j * activation yb j),
      a1 + word_of_int (\<Sum>j\<leftarrow>js. weight_hi xb j * activation yb (j + 16)))"
proof (induction js arbitrary: a0 a1)
  case Nil
  then show ?case by simp
next
  case (Cons j js)
  show ?case
    by (simp add: Cons scalar_step_eq add.assoc)
qed

lemma scalar_block_sum_word: "scalar_block_sum xb yb = word_of_int (pair_sum xb yb [0 ..< 16])"
  by (simp add: scalar_block_sum_def scalar_sumi_def scalar_step_fold pair_sum_def QK4_0_def)

lemma scalar_block_sum_sint: "sint (scalar_block_sum xb yb) = pair_sum xb yb [0 ..< 16]"
  unfolding scalar_block_sum_word
  using pair_sum_bound [of "[0 ..< 16]" xb yb] by (intro sint32_of_int) simp_all

subsection \<open>The SDOT lanes compute the paired sum\<close>

lemma scast8_32_of_int:
  "- 128 \<le> k \<Longrightarrow> k \<le> 127 \<Longrightarrow> (scast (word_of_int k :: 8 word) :: 32 word) = word_of_int k"
proof -
  assume k: "- 128 \<le> k" "k \<le> 127"
  have "(scast (word_of_int k :: 8 word) :: 32 word) = word_of_int (sint (word_of_int k :: 8 word))"
    by simp
  also have "sint (word_of_int k :: 8 word) = k"
    using k by (intro sint8_of_int) simp_all
  finally show ?thesis .
qed

lemma qxl_nth:
  assumes "wf_q4_0 xb" "j < 16"
  shows "scast (vsubq_s8 (vreinterpretq_s8_u8 (vandq_u8 (vld1q_u8 (q4_qs xb)) m4b)) s8b ! j)
           = (word_of_int (weight_lo xb j) :: 32 word)"
proof -
  have "vsubq_s8 (vreinterpretq_s8_u8 (vandq_u8 (vld1q_u8 (q4_qs xb)) m4b)) s8b ! j
          = (q4_qs xb ! j AND 0x0F) - 8"
    using assms
    by (simp add: vsubq_s8_def vreinterpretq_s8_u8_def vandq_u8_def vld1q_u8_def m4b_def s8b_def
        vdupq_n_u8_def vdupq_n_s8_def wf_q4_0_def)
  also have "\<dots> = word_of_int (weight_lo xb j)"
    by (simp add: and15_8 weight_lo_def)
  finally show ?thesis
    using weight_lo_range [of xb j] by (simp add: scast8_32_of_int)
qed

lemma qxh_nth:
  assumes "wf_q4_0 xb" "j < 16"
  shows "scast (vsubq_s8 (vreinterpretq_s8_u8 (vshrq_n_u8 (vld1q_u8 (q4_qs xb)) 4)) s8b ! j)
           = (word_of_int (weight_hi xb j) :: 32 word)"
proof -
  have "vsubq_s8 (vreinterpretq_s8_u8 (vshrq_n_u8 (vld1q_u8 (q4_qs xb)) 4)) s8b ! j
          = drop_bit 4 (q4_qs xb ! j) - 8"
    using assms
    by (simp add: vsubq_s8_def vreinterpretq_s8_u8_def vshrq_n_u8_def vld1q_u8_def s8b_def
        vdupq_n_s8_def wf_q4_0_def)
  also have "\<dots> = word_of_int (weight_hi xb j)"
    by (simp add: shr4_8 weight_hi_def)
  finally show ?thesis
    using weight_hi_range [of xb j] by (simp add: scast8_32_of_int)
qed

lemma qyl_nth:
  assumes "wf_q8_0 yb" "j < 16"
  shows "scast (vld1q_s8 (q8_qs yb) ! j) = (word_of_int (activation yb j) :: 32 word)"
  using assms by (simp add: vld1q_s8_def activation_def)

lemma qyh_nth:
  assumes "wf_q8_0 yb" "j < 16"
  shows "scast (vld1q_s8 (drop 16 (q8_qs yb)) ! j) = (word_of_int (activation yb (j + 16)) :: 32 word)"
  using assms by (simp add: vld1q_s8_def activation_def wf_q8_0_def add.commute)

lemma sdot_lanes:
  assumes "wf_q4_0 xb" "wf_q8_0 yb" "i < 4"
  shows "sdot_lane (vsubq_s8 (vreinterpretq_s8_u8 (vshrq_n_u8 (vld1q_u8 (q4_qs xb)) 4)) s8b)
           (vld1q_s8 (drop 16 (q8_qs yb))) i
           (sdot_lane (vsubq_s8 (vreinterpretq_s8_u8 (vandq_u8 (vld1q_u8 (q4_qs xb)) m4b)) s8b)
              (vld1q_s8 (q8_qs yb)) i 0)
         = word_of_int (pair_sum xb yb (lane_js i))"
proof -
  have j: "4 * i < 16" "4 * i + 1 < 16" "4 * i + 2 < 16" "4 * i + 3 < 16"
    using assms(3) by simp_all
  show ?thesis
    unfolding sdot_lane_def
    by (simp only: qxl_nth [OF assms(1)] qxh_nth [OF assms(1)] qyl_nth [OF assms(2)] qyh_nth [OF assms(2)] j)
       (simp add: pair_sum_def lane_js_def)
qed

lemma block_sdot_word:
  assumes "wf_q4_0 xb" "wf_q8_0 yb"
  shows "block_sdot xb yb =
     Vec4 (word_of_int (pair_sum xb yb (lane_js 0))) (word_of_int (pair_sum xb yb (lane_js 1)))
          (word_of_int (pair_sum xb yb (lane_js 2))) (word_of_int (pair_sum xb yb (lane_js 3)))"
  unfolding block_sdot_def Let_def vdotq_s32_def vdupq_n_s32_def vec4.case
  using sdot_lanes [OF assms] by simp

lemma pair_sum_append: "pair_sum xb yb (js @ ks) = pair_sum xb yb js + pair_sum xb yb ks"
  by (simp add: pair_sum_def)

lemma upt_16_lanes: "[0 ..< 16] = lane_js 0 @ lane_js 1 @ lane_js 2 @ lane_js 3"
  by (simp add: lane_js_def upt_rec)

lemma pair_sum_lanes:
  "pair_sum xb yb (lane_js 0) + pair_sum xb yb (lane_js 1) + pair_sum xb yb (lane_js 2)
     + pair_sum xb yb (lane_js 3) = pair_sum xb yb [0 ..< 16]"
  by (simp only: upt_16_lanes pair_sum_append)

lemma unat_and15: "unat ((q::8 word) AND 0x0F) = unat q mod 16"
  by (simp add: and15_8 unat_of_nat take_bit_eq_mod) 

lemma unat_shr4: "unat (drop_bit 4 (q::8 word)) = unat q div 16"
  by (simp add: drop_bit_eq_div unat_div)

lemma PROCESS_BLOCK_sdot:
  "PROCESS_BLOCK fo xb yb ACC =
     vmlaq_n_f32 fo ACC (vcvtq_f32_s32 fo (block_sdot xb yb))
       (fmul fo (fp16_to_fp32 fo (q4_d xb)) (fp16_to_fp32 fo (q8_d yb)))"
  by (simp add: PROCESS_BLOCK_def block_sdot_def Let_def)

lemma original_pair_body_eq:
  "original_pair_body fo x0 x1 y0 y1 (sumv0, sumv1) =
     (PROCESS_BLOCK fo x0 y0 sumv0, PROCESS_BLOCK fo x1 y1 sumv1)"
  by (simp add: original_pair_body_def PROCESS_BLOCK_def Let_def)

lemma optimized_pair_body_eq:
  "optimized_pair_body fo x0 x1 y0 y1 (sv0, sv1) =
     (PROCESS_BLOCK fo x0 y0 sv0, PROCESS_BLOCK fo x1 y1 sv1)"
  by (simp add: optimized_pair_body_def PROCESS_BLOCK_def Let_def)

lemma lane_sint:
  "sint (word_of_int (pair_sum xb yb (lane_js i)) :: 32 word) = pair_sum xb yb (lane_js i)"
  using pair_sum_bound [of "lane_js i" xb yb] by (intro sint32_of_int) (simp_all add: lane_js_def)

lemma lo_sum_bound:
  "- 1016 * int (length js) \<le> (\<Sum>j\<leftarrow>js. weight_lo xb j * activation yb j)
      \<and> (\<Sum>j\<leftarrow>js. weight_lo xb j * activation yb j) \<le> 1024 * int (length js)"
  by (rule sum_list_prod_bound [where a = "activation yb"]) (rule weight_lo_range activation_range)+

lemma hi_sum_bound:
  "- 1016 * int (length js) \<le> (\<Sum>j\<leftarrow>js. weight_hi xb j * activation yb (j + 16))
      \<and> (\<Sum>j\<leftarrow>js. weight_hi xb j * activation yb (j + 16)) \<le> 1024 * int (length js)"
  by (rule sum_list_prod_bound [where a = "\<lambda>j. activation yb (j + 16)"]) (rule weight_hi_range activation_range)+

lemma scalar_prefix_exact:
  assumes "k \<le> 16"
  shows "fold (scalar_step (q4_qs xb) (q8_qs yb)) [0 ..< k] (0, 0) = (s0, s1) \<Longrightarrow>
           sint s0 = (\<Sum>j\<leftarrow>[0 ..< k]. weight_lo xb j * activation yb j)
         \<and> sint s1 = (\<Sum>j\<leftarrow>[0 ..< k]. weight_hi xb j * activation yb (j + 16))"
proof -
  assume f: "fold (scalar_step (q4_qs xb) (q8_qs yb)) [0 ..< k] (0, 0) = (s0, s1)"
  have s0: "s0 = word_of_int (\<Sum>j\<leftarrow>[0 ..< k]. weight_lo xb j * activation yb j)"
    and s1: "s1 = word_of_int (\<Sum>j\<leftarrow>[0 ..< k]. weight_hi xb j * activation yb (j + 16))"
    using f by (simp_all add: scalar_step_fold)
  have "sint s0 = (\<Sum>j\<leftarrow>[0 ..< k]. weight_lo xb j * activation yb j)"
    unfolding s0 using lo_sum_bound [of "[0 ..< k]" xb yb] assms by (intro sint32_of_int) simp_all
  moreover have "sint s1 = (\<Sum>j\<leftarrow>[0 ..< k]. weight_hi xb j * activation yb (j + 16))"
    unfolding s1 using hi_sum_bound [of "[0 ..< k]" xb yb] assms by (intro sint32_of_int) simp_all
  ultimately show ?thesis by simp
qed

lemma lane_js_numerals:
  "lane_js 0 = [0, 1, 2, 3]" "lane_js 1 = [4, 5, 6, 7]"
  "lane_js 2 = [8, 9, 10, 11]" "lane_js 3 = [12, 13, 14, 15]"
  by (simp_all add: lane_js_def)

lemma sdot_lanes_lo:
  assumes "wf_q4_0 xb" "wf_q8_0 yb" "i < 4"
  shows "sint (sdot_lane (vsubq_s8 (vreinterpretq_s8_u8 (vandq_u8 (vld1q_u8 (q4_qs xb)) m4b)) s8b)
           (vld1q_s8 (q8_qs yb)) i 0)
         = (\<Sum>j\<leftarrow>lane_js i. weight_lo xb j * activation yb j)"
proof -
  have j: "4 * i < 16" "4 * i + 1 < 16" "4 * i + 2 < 16" "4 * i + 3 < 16"
    using assms(3) by simp_all
  have "sdot_lane (vsubq_s8 (vreinterpretq_s8_u8 (vandq_u8 (vld1q_u8 (q4_qs xb)) m4b)) s8b)
           (vld1q_s8 (q8_qs yb)) i 0
         = word_of_int (\<Sum>j\<leftarrow>lane_js i. weight_lo xb j * activation yb j)"
    unfolding sdot_lane_def
    by (simp only: qxl_nth [OF assms(1)] qyl_nth [OF assms(2)] j) (simp add: lane_js_def)
  moreover have "sint (word_of_int (\<Sum>j\<leftarrow>lane_js i. weight_lo xb j * activation yb j) :: 32 word)
      = (\<Sum>j\<leftarrow>lane_js i. weight_lo xb j * activation yb j)"
    using lo_sum_bound [of "lane_js i" xb yb] by (intro sint32_of_int) (simp_all add: lane_js_def)
  ultimately show ?thesis by simp
qed

lemma X0wf: "wf_q4_0 X0" by (simp add: wf_q4_0_def X0_def)

lemma Y0wf: "wf_q8_0 Y0" by (simp add: wf_q8_0_def Y0_def)

subsection \<open>Rounding to binary32\<close>

lemma le_div_int: "0 < d \<Longrightarrow> a * d \<le> m \<Longrightarrow> a \<le> m div (d::int)"
  using zdiv_mono1 [of "a * d" m d] by simp

lemma div_less_int: "0 < d \<Longrightarrow> m < a * d \<Longrightarrow> m div (d::int) < a"
  using verit_le_mono_div_int by fastforce

lemma rne_shift_bounds:
  "m div 2 ^ k \<le> rne_shift m k \<and> rne_shift m k \<le> m div 2 ^ k + 1"
  by (simp add: rne_shift_def Let_def)

lemma rne_shift_exact: "rne_shift (m * 2 ^ k) k = m"
  by (simp add: rne_shift_def Let_def)

lemma bitlen_lower: "0 < m \<Longrightarrow> (2::int) ^ nat (bitlen m - 1) \<le> m"
  using bitlen_bounds [of m] by simp

lemma bitlen_upper: "0 < m \<Longrightarrow> m < (2::int) ^ nat (bitlen m)"
  using bitlen_bounds [of m] by simp

lemma bitlen_pos: "0 < m \<Longrightarrow> 1 \<le> bitlen m"
  by (simp add: bitlen_alt_def)

lemma f32_round_unfold:
  "m \<noteq> 0 \<Longrightarrow> f32_round s m e =
     (if round_sig m e = 2 ^ 24
      then (if 104 < round_exp m e + 1 then Infinity s else Finite s (2 ^ 23) (round_exp m e + 1))
      else if 104 < round_exp m e then Infinity s
      else Finite s (round_sig m e) (round_exp m e))"
  by (simp only: f32_round_def round_sig_def round_exp_def Let_def if_False)

lemma round_exp_ge: "- 149 \<le> round_exp m e"
  by (simp add: round_exp_def)

lemma round_sig_le:
  assumes "0 < m"
  shows "0 \<le> round_sig m e \<and> round_sig m e \<le> 2 ^ 24"
proof (cases "round_exp m e \<le> e")
  case True
  define j where "j = nat (e - round_exp m e)"
  have j: "int j \<le> 24 - bitlen m"
    using True unfolding j_def round_exp_def by linarith
  then have "nat (bitlen m) + j \<le> 24"
    using bitlen_pos [OF assms] by linarith
  then have "(2::int) ^ (nat (bitlen m) + j) \<le> 2 ^ 24"
    by (intro power_increasing) simp_all
  moreover have "m * 2 ^ j < 2 ^ nat (bitlen m) * 2 ^ j"
    using bitlen_upper [OF assms] by simp
  ultimately have "m * 2 ^ j < 2 ^ 24"
    unfolding power_add by linarith
  with True assms show ?thesis
    by (simp add: round_sig_def j_def)
next
  case False
  define sh where "sh = nat (round_exp m e - e)"
  have sh: "bitlen m - 24 \<le> int sh"
    using False unfolding sh_def round_exp_def by linarith
  then have "nat (bitlen m) \<le> 24 + sh"
    by linarith
  then have "(2::int) ^ nat (bitlen m) \<le> 2 ^ (24 + sh)"
    by (intro power_increasing) simp_all
  with bitlen_upper [OF assms] have "m < 2 ^ 24 * 2 ^ sh"
    by (simp add: power_add)
  then have "m div 2 ^ sh < 2 ^ 24"
    by (intro div_less_int) simp_all
  moreover have "0 \<le> m div 2 ^ sh"
    using assms by (simp add: pos_imp_zdiv_nonneg_iff)
  ultimately show ?thesis
    using False rne_shift_bounds [of m sh] by (simp add: round_sig_def sh_def)
qed

lemma round_sig_normal:
  assumes "0 < m" "round_exp m e \<noteq> - 149"
  shows "2 ^ 23 \<le> round_sig m e"
proof -
  have re: "round_exp m e = e + bitlen m - 24"
    using assms(2) by (simp add: round_exp_def max_def split: if_splits)
  show ?thesis
  proof (cases "round_exp m e \<le> e")
    case True
    define j where "j = nat (24 - bitlen m)"
    have "nat (bitlen m - 1) + j = 23"
      using True re bitlen_pos [OF assms(1)] by (simp add: j_def)
    then have "(2::int) ^ 23 = 2 ^ nat (bitlen m - 1) * 2 ^ j"
      by (simp only: power_add [symmetric])
    also have "\<dots> \<le> m * 2 ^ j"
      using bitlen_lower [OF assms(1)] by simp
    finally show ?thesis
      using True re by (simp add: round_sig_def j_def)
  next
    case False
    define sh where "sh = nat (bitlen m - 24)"
    have "23 + sh = nat (bitlen m - 1)"
      using False re by (simp add: sh_def)
    then have "(2::int) ^ 23 * 2 ^ sh = 2 ^ nat (bitlen m - 1)"
      by (simp only: power_add [symmetric])
    with bitlen_lower [OF assms(1)] have "2 ^ 23 * 2 ^ sh \<le> m"
      by simp
    then have "2 ^ 23 \<le> m div 2 ^ sh"
      by (intro le_div_int) simp_all
    then show ?thesis
      using False re rne_shift_bounds [of m sh] by (simp add: round_sig_def sh_def)
  qed
qed

lemma f32_round_canonical:
  assumes "0 \<le> m"
  shows "f32_canonical (f32_round s m e)"
proof (cases "m = 0")
  case True
  then show ?thesis by (simp add: f32_round_def f32_canonical_def)
next
  case False
  with assms have m: "0 < m" by simp
  have n: "round_exp m e \<noteq> - 149 \<longrightarrow> 2 ^ 23 \<le> round_sig m e"
    using round_sig_normal [OF m, of e] by blast
  show ?thesis
    using round_sig_le [OF m, of e] n round_exp_ge [of m e]
    by (auto simp add: f32_round_unfold [OF False] f32_canonical_def)
qed

lemma f32_round_nonzero:
  assumes "0 < m" "- 149 \<le> e"
  shows "f32_round s m e \<noteq> Finite t 0 e2"
proof -
  have "0 < round_sig m e"
  proof (cases "round_exp m e \<le> e")
    case True
    then show ?thesis using assms(1) by (simp add: round_sig_def)
  next
    case False
    with assms(2) have "round_exp m e \<noteq> - 149" by simp
    from round_sig_normal [OF assms(1) this] show ?thesis by simp
  qed
  then show ?thesis
    using assms(1) by (simp add: f32_round_unfold)
qed

lemma f32_round_scaled:
  assumes "f32_canonical (Finite s m e)" "0 < m"
  shows "f32_round s (m * 2 ^ nat (e + 149)) (- 149) = Finite s m e"
proof -
  from assms have c: "m < 2 ^ 24" "- 149 \<le> e" "e \<le> 104" "m < 2 ^ 23 \<longrightarrow> e = - 149"
    by (simp_all add: f32_canonical_def)
  define j where "j = nat (e + 149)"
  have bl: "bitlen (m * 2 ^ j) = bitlen m + int j"
    using assms(2) by simp
  have nz: "m * 2 ^ j \<noteq> 0" using assms(2) by simp
  show ?thesis
  proof (cases "e = - 149")
    case True
    then have j0: "j = 0" by (simp add: j_def)
    have "bitlen m \<le> 24"
      using c(1) by (simp add: bitlen_le_iff_power)
    then have re: "round_exp m (- 149) = - 149"
      by (simp add: round_exp_def)
    then have "round_sig m (- 149) = m"
      by (simp add: round_sig_def)
    with re c True nz show ?thesis
      unfolding j_def [symmetric] j0 by (simp add: f32_round_unfold)
  next
    case False
    with c have m23: "2 ^ 23 \<le> m" and e: "- 149 < e" by auto
    have "bitlen m = 24"
      using c(1) m23 by (intro antisym) (simp_all add: bitlen_le_iff_power bitlen_ge_iff_power)
    with bl e have re: "round_exp (m * 2 ^ j) (- 149) = e"
      by (simp add: round_exp_def j_def)
    then have "round_sig (m * 2 ^ j) (- 149) = m"
      using e by (simp add: round_sig_def j_def [symmetric] rne_shift_exact)
    with re c nz show ?thesis
      unfolding j_def [symmetric] by (simp add: f32_round_unfold)
  qed
qed

subsection \<open>The operations return binary32 numbers; adding to +0.0\<close>

lemma f32_add_canonical: "f32_canonical a \<Longrightarrow> f32_canonical b \<Longrightarrow> f32_canonical (f32_add a b)"
  by (cases a; cases b) (auto simp add: Let_def f32_round_canonical, simp_all add: f32_canonical_def)

lemma f32_mul_canonical: "f32_canonical a \<Longrightarrow> f32_canonical b \<Longrightarrow> f32_canonical (f32_mul a b)"
proof (cases a; cases b)
  fix s1 m1 e1 s2 m2 e2
  assume "f32_canonical a" "f32_canonical b" and a: "a = Finite s1 m1 e1" and b: "b = Finite s2 m2 e2"
  then have "0 \<le> m1 * m2" by (simp add: f32_canonical_def)
  then show ?thesis by (simp add: a b f32_round_canonical)
qed (simp_all add: f32_canonical_def)

lemma f32_of_s32_canonical: "f32_canonical (f32_of_s32 w)"
  by (simp add: f32_of_s32_def Let_def f32_round_canonical)

lemma f32_of_fp16_canonical: "f32_canonical (f32_of_fp16 h)"
  by (simp add: f32_of_fp16_def Let_def f32_round_canonical) (simp add: f32_canonical_def)

lemma f32_pzero_canonical: "f32_canonical f32_pzero"
  by (simp add: f32_pzero_def f32_canonical_def)

lemma f32_add_pzero_left:
  assumes "f32_canonical v"
  shows "f32_add f32_pzero v = (if v = f32_nzero then f32_pzero else v)"
proof (cases v)
  case (Finite s m e)
  with assms have c: "0 \<le> m" "- 149 \<le> e" "m < 2 ^ 23 \<longrightarrow> e = - 149"
    by (simp_all add: f32_canonical_def)
  show ?thesis
  proof (cases "m = 0")
    case True
    with c have "e = - 149" by simp
    with True Finite show ?thesis
      by (simp add: f32_pzero_def f32_nzero_def signed_int_def)
  next
    case False
    with c have m: "0 < m" by simp
    have min: "min (- 149) e = - 149" using c by simp
    define M where "M = m * 2 ^ nat (e + 149)"
    have M: "0 < M" using m by (simp add: M_def)
    have "f32_add f32_pzero v = (let r = signed_int False 0 + signed_int s M
        in if r = 0 then Finite (False \<and> s) 0 (- 149) else f32_round (r < 0) \<bar>r\<bar> (- 149))"
      by (simp add: Finite f32_pzero_def min M_def)
    also have "\<dots> = f32_round s M (- 149)"
      using M by (cases s) (simp_all add: signed_int_def Let_def)
    finally have "f32_add f32_pzero v = f32_round s (m * 2 ^ nat (e + 149)) (- 149)"
      by (simp add: M_def)
    also have "\<dots> = v"
      using f32_round_scaled [of s m e] assms m by (simp add: Finite)
    finally show ?thesis
      using False by (simp add: Finite f32_nzero_def)
  qed
qed (simp_all add: f32_pzero_def f32_nzero_def)

lemma f32_add_eq_nzero:
  assumes "f32_canonical a" "f32_canonical b" "f32_add a b = f32_nzero"
  shows "a = f32_nzero \<and> b = f32_nzero"
proof (cases a; cases b)
  fix s1 m1 e1 s2 m2 e2
  assume a: "a = Finite s1 m1 e1" and b: "b = Finite s2 m2 e2"
  from assms a b have c: "0 \<le> m1" "0 \<le> m2" "- 149 \<le> e1" "- 149 \<le> e2"
    "m1 < 2 ^ 23 \<longrightarrow> e1 = - 149" "m2 < 2 ^ 23 \<longrightarrow> e2 = - 149"
    by (simp_all add: f32_canonical_def)
  define e where "e = min e1 e2"
  define r where "r = signed_int s1 (m1 * 2 ^ nat (e1 - e)) + signed_int s2 (m2 * 2 ^ nat (e2 - e))"
  have add: "f32_add a b = (if r = 0 then Finite (s1 \<and> s2) 0 (- 149) else f32_round (r < 0) \<bar>r\<bar> e)"
    by (simp add: a b Let_def r_def e_def)
  have r0: "r = 0"
  proof (rule ccontr)
    assume "r \<noteq> 0"
    then have "0 < \<bar>r\<bar>" by simp
    moreover have "- 149 \<le> e" using c by (simp add: e_def)
    ultimately have "f32_round (r < 0) \<bar>r\<bar> e \<noteq> Finite True 0 (- 149)"
      by (rule f32_round_nonzero)
    with \<open>r \<noteq> 0\<close> add assms(3) show False by (simp add: f32_nzero_def)
  qed
  with add assms(3) have s: "s1" "s2" by (simp_all add: f32_nzero_def)
  define A where "A = m1 * 2 ^ nat (e1 - e)"
  define B where "B = m2 * 2 ^ nat (e2 - e)"
  have "0 \<le> A" "0 \<le> B"
    using c by (simp_all add: A_def B_def)
  moreover have "- A + - B = 0"
    using r0 s by (simp add: r_def signed_int_def A_def B_def)
  ultimately have "A = 0" "B = 0"
    by linarith+
  then have "m1 = 0" "m2 = 0" by (simp_all add: A_def B_def)
  with c s show ?thesis by (simp add: a b f32_nzero_def)
qed (use assms in \<open>auto simp add: f32_nzero_def split: if_splits\<close>)

lemma f32_add_pzero_pzero [simp]: "f32_add f32_pzero f32_pzero = f32_pzero"
  by (simp add: f32_pzero_def signed_int_def)

declare original_pair_loop.simps [simp del]

declare optimized_pair_loop.simps [simp del]

declare optimized_quad_loop.simps [simp del]

declare scalar_loop.simps [simp del]

subsection \<open>Unfolding the loops\<close>

lemma original_pair_loop_exit:
  "\<not> ib + 1 < nb \<Longrightarrow> original_pair_loop fo nb x y ib acc = Inr (ib, acc)"
  by (simp add: original_pair_loop.simps)

lemma original_pair_loop_step:
  "ib + 1 < nb \<Longrightarrow> readable x ib 2 \<Longrightarrow> readable y ib 2 \<Longrightarrow>
   original_pair_loop fo nb x y ib (sumv0, sumv1) =
     original_pair_loop fo nb x y (ib + 2)
       (PROCESS_BLOCK fo (blk x ib) (blk y ib) sumv0,
        PROCESS_BLOCK fo (blk x (ib + 1)) (blk y (ib + 1)) sumv1)"
  by (subst original_pair_loop.simps) (simp add: original_pair_body_eq)

lemma original_pair_loop_oob:
  "ib + 1 < nb \<Longrightarrow> \<not> (readable x ib 2 \<and> readable y ib 2) \<Longrightarrow>
   original_pair_loop fo nb x y ib acc = Inl OutOfBounds"
  by (subst original_pair_loop.simps) auto

lemma optimized_pair_loop_eq:
  "optimized_pair_loop fo nb x y ib acc = original_pair_loop fo nb x y ib acc"
proof (induction fo nb x y ib acc rule: original_pair_loop.induct)
  case (1 fo nb x y ib acc)
  obtain sv0 sv1 where acc: "acc = (sv0, sv1)" by (cases acc)
  show ?case
  proof (cases "ib + 1 < nb \<and> readable x ib 2 \<and> readable y ib 2")
    case True
    with 1 [OF _ _] show ?thesis
      by (subst optimized_pair_loop.simps, subst original_pair_loop.simps)
         (simp add: acc optimized_pair_body_eq original_pair_body_eq)
  next
    case False
    then show ?thesis
      by (subst optimized_pair_loop.simps, subst original_pair_loop.simps) auto
  qed
qed

lemma optimized_quad_loop_exit:
  "\<not> ib + 3 < nb \<Longrightarrow> optimized_quad_loop fo nb x y ib acc = Inr (ib, acc)"
  by (simp add: optimized_quad_loop.simps)

lemma optimized_quad_loop_step:
  "ib + 3 < nb \<Longrightarrow> readable x ib 4 \<Longrightarrow> readable y ib 4 \<Longrightarrow>
   optimized_quad_loop fo nb x y ib (sumv0, sumv1, sumv2, sumv3) =
     optimized_quad_loop fo nb x y (ib + 4)
       (PROCESS_BLOCK fo (blk x ib) (blk y ib) sumv0,
        PROCESS_BLOCK fo (blk x (ib + 1)) (blk y (ib + 1)) sumv1,
        PROCESS_BLOCK fo (blk x (ib + 2)) (blk y (ib + 2)) sumv2,
        PROCESS_BLOCK fo (blk x (ib + 3)) (blk y (ib + 3)) sumv3)"
  by (subst optimized_quad_loop.simps) simp

lemma optimized_quad_loop_oob:
  "ib + 3 < nb \<Longrightarrow> \<not> (readable x ib 4 \<and> readable y ib 4) \<Longrightarrow>
   optimized_quad_loop fo nb x y ib acc = Inl OutOfBounds"
  by (subst optimized_quad_loop.simps) auto

lemma scalar_loop_exit:
  "\<not> ib < nb \<Longrightarrow> scalar_loop fo nb x y ib sumf = Inr sumf"
  by (simp add: scalar_loop.simps)

lemma scalar_loop_step:
  "ib < nb \<Longrightarrow> readable x ib 1 \<Longrightarrow> readable y ib 1 \<Longrightarrow>
   scalar_loop fo nb x y ib sumf =
     scalar_loop fo nb x y (ib + 1)
       (fadd fo sumf
          (fmul fo
             (fmul fo (s32_to_f32 fo (scalar_block_sum (blk x ib) (blk y ib)))
                (fp16_to_fp32 fo (q4_d (blk x ib))))
             (fp16_to_fp32 fo (q8_d (blk y ib)))))"
  by (subst scalar_loop.simps) simp

lemma scalar_loop_oob:
  "ib < nb \<Longrightarrow> \<not> (readable x ib 1 \<and> readable y ib 1) \<Longrightarrow>
   scalar_loop fo nb x y ib sumf = Inl OutOfBounds"
  by (subst scalar_loop.simps) auto

lemma sdiv_32_nonneg: "0 \<le> n \<Longrightarrow> (n::int) sdiv 32 = n div 32"
  by (simp add: signed_divide_int_def sgn_if)

lemma sdiv_32_small: "n < 32 \<Longrightarrow> (n::int) sdiv 32 \<le> 0"
  by (simp add: signed_divide_int_def sgn_if pos_imp_zdiv_nonneg_iff)

declare run_original_pair_loop.simps [simp del]

declare run_optimized_pair_loop.simps [simp del]

declare run_optimized_quad_loop.simps [simp del]

declare run_scalar_loop.simps [simp del]

subsection \<open>The call as a program: every loop leaves the memory as it was\<close>

lemma readable_split2: "readable xs ib 2 \<longleftrightarrow> readable xs ib 1 \<and> readable xs (ib + 1) 1"
  by (auto simp add: readable_def)

lemma readable_split4:
  "readable xs ib 4 \<longleftrightarrow>
     readable xs ib 1 \<and> readable xs (ib + 1) 1 \<and> readable xs (ib + 2) 1 \<and> readable xs (ib + 3) 1"
  by (auto simp add: readable_def)

lemma original_pair_iteration_eq:
  "original_pair_iteration fo ib acc mem =
     (if readable (mem_vx mem) ib 2 \<and> readable (mem_vy mem) ib 2
      then Inr (original_pair_body fo (blk (mem_vx mem) (ib + 0)) (blk (mem_vx mem) (ib + 1))
                  (blk (mem_vy mem) (ib + 0)) (blk (mem_vy mem) (ib + 1)) acc, mem)
      else Inl OutOfBounds)"
  by (simp add: original_pair_iteration_def seq_def ret_def load_x_def load_y_def readable_split2)

lemma optimized_pair_iteration_eq:
  "optimized_pair_iteration fo ib acc mem =
     (if readable (mem_vx mem) ib 2 \<and> readable (mem_vy mem) ib 2
      then Inr (optimized_pair_body fo (blk (mem_vx mem) ib) (blk (mem_vx mem) (ib + 1))
                  (blk (mem_vy mem) ib) (blk (mem_vy mem) (ib + 1)) acc, mem)
      else Inl OutOfBounds)"
  by (simp add: optimized_pair_iteration_def seq_def ret_def load_x_def load_y_def readable_split2)

lemma optimized_quad_iteration_eq:
  "optimized_quad_iteration fo ib (sumv0, sumv1, sumv2, sumv3) mem =
     (if readable (mem_vx mem) ib 4 \<and> readable (mem_vy mem) ib 4
      then Inr ((PROCESS_BLOCK fo (blk (mem_vx mem) (ib + 0)) (blk (mem_vy mem) (ib + 0)) sumv0,
                 PROCESS_BLOCK fo (blk (mem_vx mem) (ib + 1)) (blk (mem_vy mem) (ib + 1)) sumv1,
                 PROCESS_BLOCK fo (blk (mem_vx mem) (ib + 2)) (blk (mem_vy mem) (ib + 2)) sumv2,
                 PROCESS_BLOCK fo (blk (mem_vx mem) (ib + 3)) (blk (mem_vy mem) (ib + 3)) sumv3), mem)
      else Inl OutOfBounds)"
  by (simp add: optimized_quad_iteration_def process_block_stmt_def seq_def ret_def load_x_def load_y_def
      readable_split4)

lemma scalar_iteration_eq:
  "scalar_iteration fo ib sumf mem =
     (if readable (mem_vx mem) ib 1 \<and> readable (mem_vy mem) ib 1
      then Inr (fadd fo sumf
                  (fmul fo
                     (fmul fo (s32_to_f32 fo (scalar_block_sum (blk (mem_vx mem) ib) (blk (mem_vy mem) ib)))
                        (fp16_to_fp32 fo (q4_d (blk (mem_vx mem) ib))))
                     (fp16_to_fp32 fo (q8_d (blk (mem_vy mem) ib)))), mem)
      else Inl OutOfBounds)"
  by (simp add: scalar_iteration_def seq_def ret_def load_x_def load_y_def)

lemma run_original_pair_loop_eq:
  "run_original_pair_loop fo nb ib acc mem =
     (case original_pair_loop fo nb (mem_vx mem) (mem_vy mem) ib acc of
        Inl e \<Rightarrow> Inl e
      | Inr r \<Rightarrow> Inr (r, mem))"
proof (induction "nat (nb - ib)" arbitrary: ib acc rule: less_induct)
  case less
  show ?case
  proof (cases "ib + 1 < nb")
    case False
    then show ?thesis
      by (subst run_original_pair_loop.simps, subst original_pair_loop.simps) simp
  next
    case True
    then have "nat (nb - (ib + 2)) < nat (nb - ib)" by simp
    note ih = less.hyps [OF this]
    from True show ?thesis
      by (subst run_original_pair_loop.simps, subst original_pair_loop.simps)
         (simp add: original_pair_iteration_eq ih)
  qed
qed

lemma run_optimized_pair_loop_eq:
  "run_optimized_pair_loop fo nb ib acc mem =
     (case optimized_pair_loop fo nb (mem_vx mem) (mem_vy mem) ib acc of
        Inl e \<Rightarrow> Inl e
      | Inr r \<Rightarrow> Inr (r, mem))"
proof (induction "nat (nb - ib)" arbitrary: ib acc rule: less_induct)
  case less
  show ?case
  proof (cases "ib + 1 < nb")
    case False
    then show ?thesis
      by (subst run_optimized_pair_loop.simps, subst optimized_pair_loop.simps) simp
  next
    case True
    then have "nat (nb - (ib + 2)) < nat (nb - ib)" by simp
    note ih = less.hyps [OF this]
    from True show ?thesis
      by (subst run_optimized_pair_loop.simps, subst optimized_pair_loop.simps)
         (simp add: optimized_pair_iteration_eq ih)
  qed
qed

lemma run_optimized_quad_loop_eq:
  "run_optimized_quad_loop fo nb ib acc mem =
     (case optimized_quad_loop fo nb (mem_vx mem) (mem_vy mem) ib acc of
        Inl e \<Rightarrow> Inl e
      | Inr r \<Rightarrow> Inr (r, mem))"
proof (induction "nat (nb - ib)" arbitrary: ib acc rule: less_induct)
  case less
  obtain sumv0 sumv1 sumv2 sumv3 where acc: "acc = (sumv0, sumv1, sumv2, sumv3)"
    by (cases acc) auto
  show ?case
  proof (cases "ib + 3 < nb")
    case False
    then show ?thesis
      by (subst run_optimized_quad_loop.simps, subst optimized_quad_loop.simps) simp
  next
    case True
    then have "nat (nb - (ib + 4)) < nat (nb - ib)" by simp
    note ih = less.hyps [OF this]
    from True show ?thesis
      unfolding acc
      by (subst run_optimized_quad_loop.simps, subst optimized_quad_loop.simps)
         (simp add: optimized_quad_iteration_eq ih)
  qed
qed

lemma run_scalar_loop_eq:
  "run_scalar_loop fo nb ib sumf mem =
     (case scalar_loop fo nb (mem_vx mem) (mem_vy mem) ib sumf of
        Inl e \<Rightarrow> Inl e
      | Inr r \<Rightarrow> Inr (r, mem))"
proof (induction "nat (nb - ib)" arbitrary: ib sumf rule: less_induct)
  case less
  show ?case
  proof (cases "ib < nb")
    case False
    then show ?thesis
      by (subst run_scalar_loop.simps, subst scalar_loop.simps) simp
  next
    case True
    then have "nat (nb - (ib + 1)) < nat (nb - ib)" by simp
    note ih = less.hyps [OF this]
    from True show ?thesis
      by (subst run_scalar_loop.simps, subst scalar_loop.simps)
         (simp add: scalar_iteration_eq ih)
  qed
qed

lemma call_original_eq:
  "call_original fo n mem =
     (case vec_dot_q4_0_q8_0_original fo n (mem_vx mem) (mem_vy mem) of
        Inl e \<Rightarrow> Inl e
      | Inr sumf \<Rightarrow> Inr (mem\<lparr>mem_s := sumf\<rparr>))"
  by (simp add: call_original_def vec_dot_q4_0_q8_0_original_def Let_def seq_def store_s_def
      run_original_pair_loop_eq run_scalar_loop_eq split: sum.splits prod.splits)

lemma call_optimized_eq:
  "call_optimized fo n mem =
     (case vec_dot_q4_0_q8_0_optimized fo n (mem_vx mem) (mem_vy mem) of
        Inl e \<Rightarrow> Inl e
      | Inr sumf \<Rightarrow> Inr (mem\<lparr>mem_s := sumf\<rparr>))"
  by (simp add: call_optimized_def vec_dot_q4_0_q8_0_optimized_def Let_def seq_def store_s_def
      run_optimized_quad_loop_eq run_optimized_pair_loop_eq run_scalar_loop_eq split: sum.splits prod.splits)

subsection \<open>Calls without a full block\<close>

lemma original_no_blocks:
  assumes "n sdiv 32 \<le> 0"
  shows "vec_dot_q4_0_q8_0_original fo n x y =
     Inr (fadd fo (vaddvq_f32 fo (vdupq_n_f32 (fzero fo))) (vaddvq_f32 fo (vdupq_n_f32 (fzero fo))))"
  using assms
  by (simp add: vec_dot_q4_0_q8_0_original_def Let_def QK4_0_def original_pair_loop_exit scalar_loop_exit)

lemma optimized_no_blocks:
  assumes "n sdiv 32 \<le> 0"
  shows "vec_dot_q4_0_q8_0_optimized fo n x y =
     Inr (fadd fo
            (vaddvq_f32 fo
               (vaddq_f32 fo (vaddq_f32 fo (vdupq_n_f32 (fzero fo)) (vdupq_n_f32 (fzero fo)))
                  (vaddq_f32 fo (vdupq_n_f32 (fzero fo)) (vdupq_n_f32 (fzero fo)))))
            (fadd fo (vaddvq_f32 fo (vdupq_n_f32 (fzero fo))) (vaddvq_f32 fo (vdupq_n_f32 (fzero fo)))))"
  using assms
  by (simp add: vec_dot_q4_0_q8_0_optimized_def Let_def QK4_0_def optimized_quad_loop_exit
      optimized_pair_loop_eq original_pair_loop_exit scalar_loop_exit)

lemma ieee_zero_sums [simp]:
  "vaddvq_f32 ieee_ops (vdupq_n_f32 f32_pzero) = f32_pzero"
  "vaddq_f32 ieee_ops (vdupq_n_f32 f32_pzero) (vdupq_n_f32 f32_pzero) = vdupq_n_f32 f32_pzero"
  by (simp_all add: vaddvq_f32_def vaddq_f32_def vdupq_n_f32_def ieee_ops_def)

lemma ieee_ops_simps [simp]:
  "fzero ieee_ops = f32_pzero" "fadd ieee_ops = f32_add" "fmul ieee_ops = f32_mul"
  "s32_to_f32 ieee_ops = f32_of_s32" "fp16_to_fp32 ieee_ops = f32_of_fp16"
  by (simp_all add: ieee_ops_def)

subsection \<open>Sums that are never -0.0\<close>

lemma f32_regular_add_pzero: "f32_canonical v \<Longrightarrow> f32_regular (f32_add f32_pzero v)"
  by (simp add: f32_add_pzero_left f32_regular_def f32_pzero_canonical) (simp add: f32_pzero_def f32_nzero_def)

lemma f32_regular_add: "f32_regular a \<Longrightarrow> f32_regular b \<Longrightarrow> f32_regular (f32_add a b)"
  unfolding f32_regular_def using f32_add_eq_nzero [of a b] f32_add_canonical [of a b] by blast

lemma f32_add_pzero_regular: "f32_regular v \<Longrightarrow> f32_add f32_pzero v = v"
  by (simp add: f32_regular_def f32_add_pzero_left)

lemma f32_pzero_regular: "f32_regular f32_pzero"
  by (simp add: f32_regular_def f32_pzero_canonical) (simp add: f32_pzero_def f32_nzero_def)

lemma vaddvq_PROCESS_BLOCK_regular:
  "f32_regular (vaddvq_f32 ieee_ops (PROCESS_BLOCK ieee_ops xb yb (vdupq_n_f32 f32_pzero)))"
proof -
  obtain p0 p1 p2 p3 where p: "block_sdot xb yb = Vec4 p0 p1 p2 p3"
    by (cases "block_sdot xb yb")
  have lane: "f32_regular (f32_add f32_pzero (f32_mul (f32_of_s32 q) (f32_mul (f32_of_fp16 a) (f32_of_fp16 b))))" for q a b
    by (intro f32_regular_add_pzero f32_mul_canonical f32_of_s32_canonical f32_of_fp16_canonical)
  show ?thesis
    by (simp add: PROCESS_BLOCK_sdot p vaddvq_f32_def vmlaq_n_f32_def vcvtq_f32_s32_def vdupq_n_f32_def
        f32_regular_add lane)
qed

lemma optimized_eq_original_small:
  assumes "32 \<le> n" and "n < 128"
  shows "vec_dot_q4_0_q8_0_optimized ieee_ops n x y = vec_dot_q4_0_q8_0_original ieee_ops n x y"
proof -
  from assms have "n sdiv 32 = n div 32" by (simp add: sdiv_32_nonneg)
  with assms consider "n sdiv 32 = 1" | "n sdiv 32 = 2" | "n sdiv 32 = 3"
    by (cases "n div 32 = 1"; cases "n div 32 = 2"; cases "n div 32 = 3") auto
  then show ?thesis
  proof cases
    case 1
    show ?thesis
      by (cases "readable x 0 1 \<and> readable y 0 1")
        (simp_all add: vec_dot_q4_0_q8_0_optimized_def vec_dot_q4_0_q8_0_original_def Let_def QK4_0_def 1
          optimized_quad_loop_exit optimized_pair_loop_eq original_pair_loop_exit
          scalar_loop_exit scalar_loop_step scalar_loop_oob)
  next
    case 2
    have r: "f32_regular (f32_add (vaddvq_f32 ieee_ops (PROCESS_BLOCK ieee_ops xb yb (vdupq_n_f32 f32_pzero)))
        (vaddvq_f32 ieee_ops (PROCESS_BLOCK ieee_ops xb' yb' (vdupq_n_f32 f32_pzero))))" for xb yb xb' yb'
      by (intro f32_regular_add vaddvq_PROCESS_BLOCK_regular)
    show ?thesis
      by (cases "readable x 0 2 \<and> readable y 0 2")
        (simp_all add: vec_dot_q4_0_q8_0_optimized_def vec_dot_q4_0_q8_0_original_def Let_def QK4_0_def 2
          optimized_quad_loop_exit optimized_pair_loop_eq original_pair_loop_exit
          original_pair_loop_step original_pair_loop_oob
          scalar_loop_exit f32_add_pzero_regular [OF r])
  next
    case 3
    have r: "f32_regular (f32_add (vaddvq_f32 ieee_ops (PROCESS_BLOCK ieee_ops xb yb (vdupq_n_f32 f32_pzero)))
        (vaddvq_f32 ieee_ops (PROCESS_BLOCK ieee_ops xb' yb' (vdupq_n_f32 f32_pzero))))" for xb yb xb' yb'
      by (intro f32_regular_add vaddvq_PROCESS_BLOCK_regular)
    show ?thesis
      by (cases "readable x 0 2 \<and> readable y 0 2")
        (simp_all add: vec_dot_q4_0_q8_0_optimized_def vec_dot_q4_0_q8_0_original_def Let_def QK4_0_def 3
          optimized_quad_loop_exit optimized_pair_loop_eq original_pair_loop_exit
          original_pair_loop_step original_pair_loop_oob
          f32_add_pzero_regular [OF r])
  qed
qed

subsection \<open>The kernels in exact arithmetic\<close>

lemma exact_ops_simps [simp]:
  "fzero (exact_ops dec) = 0" "fadd (exact_ops dec) = (+)" "fmul (exact_ops dec) = (*)"
  "s32_to_f32 (exact_ops dec) = (\<lambda>w. real_of_int (sint w))" "fp16_to_fp32 (exact_ops dec) = dec"
  by (simp_all add: exact_ops_def)

lemma dequant_sum_list:
  "(\<Sum>j\<leftarrow>js. (real_of_int (w j) * dx) * (real_of_int (a j) * dy))
     = real_of_int (\<Sum>j\<leftarrow>js. w j * a j) * dx * dy"
  by (induction js) (simp_all add: algebra_simps)

lemma dequantized_dot_pair_sum:
  "dequantized_dot dec xb yb = real_of_int (pair_sum xb yb [0 ..< 16]) * dec (q4_d xb) * dec (q8_d yb)"
proof -
  have u: "[0 ..< 32] = [0 ..< 16] @ map (\<lambda>j. j + 16) [0 ..< 16]"
    using upt_add_eq_append [of 0 16 16] by (simp add: map_add_upt)
  have "dequantized_dot dec xb yb =
      (\<Sum>j\<leftarrow>[0 ..< 16]. (real_of_int (weight_lo xb j) * dec (q4_d xb)) * (real_of_int (activation yb j) * dec (q8_d yb)))
    + (\<Sum>j\<leftarrow>[0 ..< 16]. (real_of_int (weight_hi xb j) * dec (q4_d xb)) * (real_of_int (activation yb (j + 16)) * dec (q8_d yb)))"
    unfolding dequantized_dot_def dequantize_row_q4_0_def dequantize_row_q8_0_def u
    by (simp add: map2_map_map zip_map_map zip_same_conv_map comp_def del: upt.simps)
  also have "\<dots> = real_of_int (pair_sum xb yb [0 ..< 16]) * dec (q4_d xb) * dec (q8_d yb)"
    unfolding pair_sum_def dequant_sum_list by (simp add: algebra_simps)
  finally show ?thesis .
qed

lemma signed_real: "(signed w :: real) = real_of_int (sint w)"
  by simp

lemma foldl_add_sum_list: "foldl (+) a xs = (a::real) + sum_list xs"
  by (induction xs arbitrary: a) simp_all

lemma reference_dot_exact:
  "reference_dot (exact_ops dec) xb yb = dequantized_dot dec xb yb"
proof -
  have w: "(signed (word_of_int (weight_lo xb j) :: 32 word) :: real) = real_of_int (weight_lo xb j)"
    "(signed (word_of_int (weight_hi xb j) :: 32 word) :: real) = real_of_int (weight_hi xb j)" for j
    using weight_lo_range [of xb j] weight_hi_range [of xb j] by (simp_all add: signed_real sint32_of_int)
  have a: "(signed (word_of_int (activation yb i) :: 32 word) :: real) = real_of_int (activation yb i)" for i
    using activation_range [of yb i] by (simp add: signed_real sint32_of_int)
  have u: "[0 ..< 32] = [0 ..< 16] @ map (\<lambda>j. j + 16) [0 ..< 16]"
    using upt_add_eq_append [of 0 16 16] by (simp add: map_add_upt)
  have "reference_dot (exact_ops dec) xb yb =
      (\<Sum>i\<leftarrow>[0 ..< 32]. reference_product (exact_ops dec) xb yb i)"
    by (simp add: reference_dot_def foldl_add_sum_list del: upt.simps)
  also have "\<dots> =
      (\<Sum>j\<leftarrow>[0 ..< 16]. (real_of_int (weight_lo xb j) * dec (q4_d xb)) * (real_of_int (activation yb j) * dec (q8_d yb)))
    + (\<Sum>j\<leftarrow>[0 ..< 16]. (real_of_int (weight_hi xb j) * dec (q4_d xb)) * (real_of_int (activation yb (j + 16)) * dec (q8_d yb)))"
    unfolding u map_append sum_list_append map_map comp_def
    by (intro arg_cong2 [where f = "(+)"] arg_cong [where f = sum_list] map_cong refl)
       (simp_all add: reference_product_def dequantize_q4_0_def dequantize_q8_0_def w a)
  also have "\<dots> = dequantized_dot dec xb yb"
    unfolding dequantized_dot_pair_sum pair_sum_def dequant_sum_list by (simp add: algebra_simps)
  finally show ?thesis .
qed

lemma vaddvq_exact: "vaddvq_f32 (exact_ops dec) v = hsum v"
  by (cases v) (simp add: vaddvq_f32_def hsum_def)

lemma hsum_vaddq_exact: "hsum (vaddq_f32 (exact_ops dec) a b) = hsum a + hsum b"
  by (cases a; cases b) (simp add: vaddq_f32_def hsum_def)

lemma hsum_zero [simp]: "hsum (vdupq_n_f32 0) = 0"
  by (simp add: hsum_def vdupq_n_f32_def)

lemma scalar_block_sum_real:
  "(signed (scalar_block_sum xb yb) :: real) = real_of_int (pair_sum xb yb [0 ..< 16])"
  by (simp only: signed_real scalar_block_sum_sint)

lemma lane_real:
  "(signed (word_of_int (pair_sum xb yb (lane_js i)) :: 32 word) :: real) = real_of_int (pair_sum xb yb (lane_js i))"
  by (simp only: signed_real lane_sint)

lemma PROCESS_BLOCK_exact:
  assumes "wf_q4_0 xb" "wf_q8_0 yb"
  shows "hsum (PROCESS_BLOCK (exact_ops dec) xb yb ACC) = hsum ACC + block_term dec xb yb"
proof -
  obtain a0 a1 a2 a3 where a: "ACC = Vec4 a0 a1 a2 a3" by (cases ACC)
  have "hsum (PROCESS_BLOCK (exact_ops dec) xb yb ACC) = hsum ACC
      + real_of_int (pair_sum xb yb (lane_js 0) + pair_sum xb yb (lane_js 1) + pair_sum xb yb (lane_js 2)
          + pair_sum xb yb (lane_js 3)) * (dec (q4_d xb) * dec (q8_d yb))"
    by (simp add: PROCESS_BLOCK_sdot block_sdot_word [OF assms] a hsum_def vmlaq_n_f32_def
        vcvtq_f32_s32_def lane_real algebra_simps)
  then show ?thesis
    by (simp only: pair_sum_lanes block_term_def mult.assoc)
qed

lemma exact_dot_empty [simp]: "j \<le> i \<Longrightarrow> exact_dot dec x y i j = 0"
  by (simp add: exact_dot_def)

lemma exact_dot_first: "i < j \<Longrightarrow> exact_dot dec x y i j = block_term dec (x ! i) (y ! i) + exact_dot dec x y (Suc i) j"
  by (simp add: exact_dot_def upt_conv_Cons)

lemma exact_dot_split:
  "i \<le> j \<Longrightarrow> j \<le> k \<Longrightarrow> exact_dot dec x y i j + exact_dot dec x y j k = exact_dot dec x y i k"
  using upt_add_eq_append [of i j "k - j"] by (simp add: exact_dot_def)

lemma scalar_loop_exact:
  assumes "0 \<le> ib" "nb \<le> int (length x)" "nb \<le> int (length y)"
  shows "scalar_loop (exact_ops dec) nb x y ib sumf = Inr (sumf + exact_dot dec x y (nat ib) (nat nb))"
  using assms(1)
proof (induction "nat (nb - ib)" arbitrary: ib sumf rule: less_induct)
  case less
  show ?case
  proof (cases "ib < nb")
    case False
    then show ?thesis by (simp add: scalar_loop_exit)
  next
    case True
    with less.prems assms have r: "readable x ib 1" "readable y ib 1"
      by (simp_all add: readable_def)
    have n: "nat (ib + 1) = Suc (nat ib)" "nat ib < nat nb"
      using less.prems True by simp_all
    have "scalar_loop (exact_ops dec) nb x y (ib + 1) (sumf + block_term dec (blk x ib) (blk y ib))
        = Inr (sumf + block_term dec (blk x ib) (blk y ib) + exact_dot dec x y (nat (ib + 1)) (nat nb))"
      using True less.prems by (intro less.hyps) simp_all
    then show ?thesis
      using True r n
      by (simp add: scalar_loop_step block_term_def scalar_block_sum_real exact_dot_first [of "nat ib"] blk_def)
  qed
qed

lemma original_pair_loop_exact:
  assumes "nb \<le> int (length x)" "nb \<le> int (length y)" "list_all wf_q4_0 x" "list_all wf_q8_0 y"
    and "0 \<le> ib"
  shows "\<exists>ib' s0 s1. original_pair_loop (exact_ops dec) nb x y ib (a0, a1) = Inr (ib', s0, s1)
      \<and> ib \<le> ib' \<and> (ib' = ib \<or> ib' \<le> nb)
      \<and> hsum s0 + hsum s1 = hsum a0 + hsum a1 + exact_dot dec x y (nat ib) (nat ib')"
  using assms(5)
proof (induction "nat (nb - ib)" arbitrary: ib a0 a1 rule: less_induct)
  case less
  show ?case
  proof (cases "ib + 1 < nb")
    case False
    then show ?thesis by (simp add: original_pair_loop_exit)
  next
    case True
    with less.prems assms have r: "readable x ib 2" "readable y ib 2"
      by (simp_all add: readable_def)
    have i: "nat ib < length x" "nat ib < length y" "nat (ib + 1) < length x" "nat (ib + 1) < length y"
      using True less.prems assms(1,2) by simp_all
    then have wf: "wf_q4_0 (blk x ib)" "wf_q8_0 (blk y ib)" "wf_q4_0 (blk x (ib + 1))" "wf_q8_0 (blk y (ib + 1))"
      using assms(3,4) by (simp_all add: list_all_length blk_def)
    define b0 where "b0 = PROCESS_BLOCK (exact_ops dec) (blk x ib) (blk y ib) a0"
    define b1 where "b1 = PROCESS_BLOCK (exact_ops dec) (blk x (ib + 1)) (blk y (ib + 1)) a1"
    have "\<exists>ib' s0 s1. original_pair_loop (exact_ops dec) nb x y (ib + 2) (b0, b1) = Inr (ib', s0, s1)
      \<and> ib + 2 \<le> ib' \<and> (ib' = ib + 2 \<or> ib' \<le> nb)
      \<and> hsum s0 + hsum s1 = hsum b0 + hsum b1 + exact_dot dec x y (nat (ib + 2)) (nat ib')"
      using True less.prems by (intro less.hyps) simp_all
    then obtain ib' s0 s1 where
      l: "original_pair_loop (exact_ops dec) nb x y (ib + 2) (b0, b1) = Inr (ib', s0, s1)"
      and le: "ib + 2 \<le> ib'" and up: "ib' = ib + 2 \<or> ib' \<le> nb"
      and s: "hsum s0 + hsum s1 = hsum b0 + hsum b1 + exact_dot dec x y (nat (ib + 2)) (nat ib')"
      by blast
    have n: "nat (ib + 1) = Suc (nat ib)" "nat (ib + 2) = Suc (Suc (nat ib))" "Suc (nat ib) < nat ib'"
      "nat ib < nat ib'"
      using less.prems le by simp_all
    have "hsum b0 + hsum b1 = hsum a0 + hsum a1 + block_term dec (x ! nat ib) (y ! nat ib)
        + block_term dec (x ! Suc (nat ib)) (y ! Suc (nat ib))"
      using wf by (simp add: b0_def b1_def PROCESS_BLOCK_exact blk_def n)
    moreover have "exact_dot dec x y (nat ib) (nat ib') = block_term dec (x ! nat ib) (y ! nat ib)
        + block_term dec (x ! Suc (nat ib)) (y ! Suc (nat ib)) + exact_dot dec x y (nat (ib + 2)) (nat ib')"
      using n by (simp add: exact_dot_first)
    ultimately have "hsum s0 + hsum s1 = hsum a0 + hsum a1 + exact_dot dec x y (nat ib) (nat ib')"
      using s by simp
    moreover from up True have "ib' \<le> nb" by auto
    ultimately show ?thesis
      using l le True r by (simp add: original_pair_loop_step b0_def b1_def)
  qed
qed

lemma optimized_quad_loop_exact:
  assumes "nb \<le> int (length x)" "nb \<le> int (length y)" "list_all wf_q4_0 x" "list_all wf_q8_0 y"
    and "0 \<le> ib"
  shows "\<exists>ib' s0 s1 s2 s3.
        optimized_quad_loop (exact_ops dec) nb x y ib (a0, a1, a2, a3) = Inr (ib', s0, s1, s2, s3)
      \<and> ib \<le> ib' \<and> (ib' = ib \<or> ib' \<le> nb)
      \<and> hsum s0 + hsum s1 + hsum s2 + hsum s3
          = hsum a0 + hsum a1 + hsum a2 + hsum a3 + exact_dot dec x y (nat ib) (nat ib')"
  using assms(5)
proof (induction "nat (nb - ib)" arbitrary: ib a0 a1 a2 a3 rule: less_induct)
  case less
  show ?case
  proof (cases "ib + 3 < nb")
    case False
    then show ?thesis by (simp add: optimized_quad_loop_exit)
  next
    case True
    with less.prems assms have r: "readable x ib 4" "readable y ib 4"
      by (simp_all add: readable_def)
    have i: "nat (ib + k) < length x" "nat (ib + k) < length y" if "0 \<le> k" "k \<le> 3" for k
      using True less.prems assms(1,2) that by simp_all
    have wf: "wf_q4_0 (blk x (ib + k))" "wf_q8_0 (blk y (ib + k))" if "0 \<le> k" "k \<le> 3" for k
      using assms(3,4) i [OF that] by (simp_all add: list_all_length blk_def)
    define b0 where "b0 = PROCESS_BLOCK (exact_ops dec) (blk x ib) (blk y ib) a0"
    define b1 where "b1 = PROCESS_BLOCK (exact_ops dec) (blk x (ib + 1)) (blk y (ib + 1)) a1"
    define b2 where "b2 = PROCESS_BLOCK (exact_ops dec) (blk x (ib + 2)) (blk y (ib + 2)) a2"
    define b3 where "b3 = PROCESS_BLOCK (exact_ops dec) (blk x (ib + 3)) (blk y (ib + 3)) a3"
    have "\<exists>ib' s0 s1 s2 s3.
        optimized_quad_loop (exact_ops dec) nb x y (ib + 4) (b0, b1, b2, b3) = Inr (ib', s0, s1, s2, s3)
      \<and> ib + 4 \<le> ib' \<and> (ib' = ib + 4 \<or> ib' \<le> nb)
      \<and> hsum s0 + hsum s1 + hsum s2 + hsum s3
          = hsum b0 + hsum b1 + hsum b2 + hsum b3 + exact_dot dec x y (nat (ib + 4)) (nat ib')"
      using True less.prems by (intro less.hyps) simp_all
    then obtain ib' s0 s1 s2 s3 where
      l: "optimized_quad_loop (exact_ops dec) nb x y (ib + 4) (b0, b1, b2, b3) = Inr (ib', s0, s1, s2, s3)"
      and le: "ib + 4 \<le> ib'" and up: "ib' = ib + 4 \<or> ib' \<le> nb"
      and s: "hsum s0 + hsum s1 + hsum s2 + hsum s3
          = hsum b0 + hsum b1 + hsum b2 + hsum b3 + exact_dot dec x y (nat (ib + 4)) (nat ib')"
      by blast
    have n: "nat (ib + 1) = Suc (nat ib)" "nat (ib + 2) = Suc (Suc (nat ib))"
      "nat (ib + 3) = Suc (Suc (Suc (nat ib)))" "nat (ib + 4) = Suc (Suc (Suc (Suc (nat ib))))"
      "nat ib < nat ib'" "Suc (nat ib) < nat ib'" "Suc (Suc (nat ib)) < nat ib'"
      "Suc (Suc (Suc (nat ib))) < nat ib'"
      using less.prems le by simp_all
    have w0: "wf_q4_0 (blk x ib)" "wf_q8_0 (blk y ib)"
      using wf [of 0] by simp_all
    have "hsum b0 + hsum b1 + hsum b2 + hsum b3 = hsum a0 + hsum a1 + hsum a2 + hsum a3
        + block_term dec (x ! nat ib) (y ! nat ib)
        + block_term dec (x ! Suc (nat ib)) (y ! Suc (nat ib))
        + block_term dec (x ! Suc (Suc (nat ib))) (y ! Suc (Suc (nat ib)))
        + block_term dec (x ! Suc (Suc (Suc (nat ib)))) (y ! Suc (Suc (Suc (nat ib))))"
      using w0 wf [of 1] wf [of 2] wf [of 3]
      by (simp add: b0_def b1_def b2_def b3_def PROCESS_BLOCK_exact) (simp add: blk_def n)
    moreover have "exact_dot dec x y (nat ib) (nat ib') =
          block_term dec (x ! nat ib) (y ! nat ib)
        + block_term dec (x ! Suc (nat ib)) (y ! Suc (nat ib))
        + block_term dec (x ! Suc (Suc (nat ib))) (y ! Suc (Suc (nat ib)))
        + block_term dec (x ! Suc (Suc (Suc (nat ib)))) (y ! Suc (Suc (Suc (nat ib))))
        + exact_dot dec x y (nat (ib + 4)) (nat ib')"
      using n by (simp add: exact_dot_first)
    ultimately have "hsum s0 + hsum s1 + hsum s2 + hsum s3
          = hsum a0 + hsum a1 + hsum a2 + hsum a3 + exact_dot dec x y (nat ib) (nat ib')"
      using s by simp
    moreover from up True have "ib' \<le> nb" by auto
    ultimately show ?thesis
      using l le True r by (simp add: optimized_quad_loop_step b0_def b1_def b2_def b3_def)
  qed
qed

lemma original_exact:
  assumes "valid_vectors n x y"
  shows "vec_dot_q4_0_q8_0_original (exact_ops dec) n x y = Inr (exact_dot dec x y 0 (nat (n sdiv 32)))"
proof -
  define nb where "nb = n sdiv 32"
  from assms have v: "nb \<le> int (length x)" "nb \<le> int (length y)" "list_all wf_q4_0 x" "list_all wf_q8_0 y"
    by (simp_all add: valid_vectors_def nb_def)
  from original_pair_loop_exact [OF v, of 0 dec "vdupq_n_f32 0" "vdupq_n_f32 0"]
  obtain ib' s0 s1 where
    l: "original_pair_loop (exact_ops dec) nb x y 0 (vdupq_n_f32 0, vdupq_n_f32 0) = Inr (ib', s0, s1)"
    and le: "0 \<le> ib'" and up: "ib' = 0 \<or> ib' \<le> nb"
    and s: "hsum s0 + hsum s1 = exact_dot dec x y 0 (nat ib')"
    by auto
  have "exact_dot dec x y 0 (nat ib') + exact_dot dec x y (nat ib') (nat nb) = exact_dot dec x y 0 (nat nb)"
  proof (cases "ib' \<le> nb")
    case True
    then show ?thesis using le by (intro exact_dot_split) simp_all
  next
    case False
    with up have "ib' = 0" by simp
    then show ?thesis by simp
  qed
  with s have "hsum s0 + hsum s1 + exact_dot dec x y (nat ib') (nat nb) = exact_dot dec x y 0 (nat nb)"
    by simp
  then show ?thesis
    using l le v
    by (simp add: vec_dot_q4_0_q8_0_original_def Let_def QK4_0_def nb_def [symmetric]
        scalar_loop_exact vaddvq_exact)
qed

lemma optimized_exact:
  assumes "valid_vectors n x y"
  shows "vec_dot_q4_0_q8_0_optimized (exact_ops dec) n x y = Inr (exact_dot dec x y 0 (nat (n sdiv 32)))"
proof -
  define nb where "nb = n sdiv 32"
  from assms have v: "nb \<le> int (length x)" "nb \<le> int (length y)" "list_all wf_q4_0 x" "list_all wf_q8_0 y"
    by (simp_all add: valid_vectors_def nb_def)
  from optimized_quad_loop_exact [OF v, of 0 dec "vdupq_n_f32 0" "vdupq_n_f32 0" "vdupq_n_f32 0" "vdupq_n_f32 0"]
  obtain i4 s0 s1 s2 s3 where
    l4: "optimized_quad_loop (exact_ops dec) nb x y 0 (vdupq_n_f32 0, vdupq_n_f32 0, vdupq_n_f32 0, vdupq_n_f32 0)
          = Inr (i4, s0, s1, s2, s3)"
    and le4: "0 \<le> i4" and up4: "i4 = 0 \<or> i4 \<le> nb"
    and s4: "hsum s0 + hsum s1 + hsum s2 + hsum s3 = exact_dot dec x y 0 (nat i4)"
    by auto
  from original_pair_loop_exact [OF v le4, of dec "vdupq_n_f32 0" "vdupq_n_f32 0"]
  obtain i2 t0 t1 where
    l2: "original_pair_loop (exact_ops dec) nb x y i4 (vdupq_n_f32 0, vdupq_n_f32 0) = Inr (i2, t0, t1)"
    and le2: "i4 \<le> i2" and up2: "i2 = i4 \<or> i2 \<le> nb"
    and s2: "hsum t0 + hsum t1 = exact_dot dec x y (nat i4) (nat i2)"
    by auto
  have a: "exact_dot dec x y 0 (nat i4) + exact_dot dec x y (nat i4) (nat i2) = exact_dot dec x y 0 (nat i2)"
    using le4 le2 by (intro exact_dot_split) simp_all
  have "exact_dot dec x y 0 (nat i2) + exact_dot dec x y (nat i2) (nat nb) = exact_dot dec x y 0 (nat nb)"
  proof (cases "i2 \<le> nb")
    case True
    then show ?thesis using le4 le2 by (intro exact_dot_split) simp_all
  next
    case False
    with up2 up4 le2 have "i2 = 0" by auto
    then show ?thesis by simp
  qed
  with a s4 s2 have "hsum s0 + hsum s1 + hsum s2 + hsum s3 + (hsum t0 + hsum t1)
      + exact_dot dec x y (nat i2) (nat nb) = exact_dot dec x y 0 (nat nb)"
    by simp
  then show ?thesis
    using l4 l2 le4 le2 v
    by (simp add: vec_dot_q4_0_q8_0_optimized_def Let_def QK4_0_def nb_def [symmetric]
        optimized_pair_loop_eq scalar_loop_exact vaddvq_exact hsum_vaddq_exact add.assoc)
qed

subsection \<open>Both kernels compute the paired sums\<close>

lemma paired_block_sum_eq: "paired_block_sum xb yb = pair_sum xb yb [0 ..< 16]"
  by (simp add: paired_block_sum_def pair_sum_def)

lemma pair_sum_one_list:
  "pair_sum xb yb js = (\<Sum>j\<leftarrow>js. weight_lo xb j * activation yb j + weight_hi xb j * activation yb (j + 16))"
  by (induction js) (simp_all add: pair_sum_def)

lemma block_sdot_paired:
  assumes "wf_q4_0 xb" "wf_q8_0 yb"
  shows "block_sdot xb yb = paired_lanes xb yb"
  unfolding block_sdot_word [OF assms] lane_js_numerals paired_lanes_def
  by (simp only: pair_sum_one_list)

lemma PROCESS_BLOCK_paired:
  assumes "k < length x" "k < length y" "list_all wf_q4_0 x" "list_all wf_q8_0 y"
  shows "PROCESS_BLOCK fo (x ! k) (y ! k) ACC = paired_accumulate fo (x ! k) (y ! k) ACC"
proof -
  from assms have "wf_q4_0 (x ! k)" "wf_q8_0 (y ! k)"
    by (simp_all add: list_all_length)
  then show ?thesis
    by (simp add: PROCESS_BLOCK_sdot block_sdot_paired paired_accumulate_def)
qed

lemma scalar_term_paired:
  "fadd fo sumf
     (fmul fo (fmul fo (s32_to_f32 fo (scalar_block_sum (x ! k) (y ! k))) (fp16_to_fp32 fo (q4_d (x ! k))))
        (fp16_to_fp32 fo (q8_d (y ! k))))
   = paired_add fo (x ! k) (y ! k) sumf"
  by (simp add: paired_add_def scalar_block_sum_word paired_block_sum_eq)

lemma blk_int: "blk xs (int k) = xs ! k" "blk xs (int k + 1) = xs ! Suc k"
  "blk xs (int k + 2) = xs ! Suc (Suc k)" "blk xs (int k + 3) = xs ! Suc (Suc (Suc k))"
proof -
  have "nat (int k + 1) = Suc k" "nat (int k + 2) = Suc (Suc k)" "nat (int k + 3) = Suc (Suc (Suc k))"
    by simp_all
  then show "blk xs (int k) = xs ! k" "blk xs (int k + 1) = xs ! Suc k"
    "blk xs (int k + 2) = xs ! Suc (Suc k)" "blk xs (int k + 3) = xs ! Suc (Suc (Suc k))"
    by (simp_all add: blk_def)
qed

lemma original_pair_loop_paired_step:
  assumes len: "N \<le> length x" "N \<le> length y" and wf: "list_all wf_q4_0 x" "list_all wf_q8_0 y"
    and i: "i + 1 < N"
  shows "original_pair_loop fo (int N) x y (int i) (s0, s1) =
           original_pair_loop fo (int N) x y (int i + 2)
             (paired_accumulate fo (x ! i) (y ! i) s0, paired_accumulate fo (x ! (Suc i)) (y ! (Suc i)) s1)"
proof -
  from i have c: "int i + 1 < int N" by simp
  from i len have r: "readable x (int i) 2" "readable y (int i) 2"
    by (simp_all add: readable_def)
  from i len have k: "i < length x" "i < length y" "Suc i < length x" "Suc i < length y"
    by simp_all
  show ?thesis
    unfolding original_pair_loop_step [OF c r] blk_int
    by (simp only: PROCESS_BLOCK_paired [OF k(1,2) wf] PROCESS_BLOCK_paired [OF k(3,4) wf])
qed

lemma optimized_quad_loop_paired_step:
  assumes len: "N \<le> length x" "N \<le> length y" and wf: "list_all wf_q4_0 x" "list_all wf_q8_0 y"
    and i: "i + 3 < N"
  shows "optimized_quad_loop fo (int N) x y (int i) (a0, a1, a2, a3) =
           optimized_quad_loop fo (int N) x y (int i + 4)
             (paired_accumulate fo (x ! i) (y ! i) a0, paired_accumulate fo (x ! (Suc i)) (y ! (Suc i)) a1,
              paired_accumulate fo (x ! (Suc (Suc i))) (y ! (Suc (Suc i))) a2, paired_accumulate fo (x ! (Suc (Suc (Suc i)))) (y ! (Suc (Suc (Suc i)))) a3)"
proof -
  from i have c: "int i + 3 < int N" by simp
  from i len have r: "readable x (int i) 4" "readable y (int i) 4"
    by (simp_all add: readable_def)
  from i len have k: "i < length x" "i < length y" "Suc i < length x" "Suc i < length y"
    "Suc (Suc i) < length x" "Suc (Suc i) < length y"
    "Suc (Suc (Suc i)) < length x" "Suc (Suc (Suc i)) < length y"
    by simp_all
  show ?thesis
    unfolding optimized_quad_loop_step [OF c r] blk_int
    by (simp only: PROCESS_BLOCK_paired [OF k(1,2) wf] PROCESS_BLOCK_paired [OF k(3,4) wf]
        PROCESS_BLOCK_paired [OF k(5,6) wf] PROCESS_BLOCK_paired [OF k(7,8) wf])
qed

lemma original_pair_loop_paired:
  assumes len: "N \<le> length x" "N \<le> length y" and wf: "list_all wf_q4_0 x" "list_all wf_q8_0 y"
    and b: "b \<le> N" and p: "p \<le> (N - b) div 2"
  shows "original_pair_loop fo (int N) x y (int (b + 2 * p)) acc =
           Inr (int (b + 2 * ((N - b) div 2)), fold (paired_pair_step fo x y b) [p ..< (N - b) div 2] acc)"
  using p
proof (induction "(N - b) div 2 - p" arbitrary: p acc)
  case 0
  then have e: "p = (N - b) div 2" by simp
  have "\<not> int (b + 2 * p) + 1 < int N"
    unfolding e using b by linarith
  then show ?case
    by (simp add: original_pair_loop_exit e paired_pair_step_def)
next
  case (Suc d)
  obtain s0 s1 where acc: "acc = (s0, s1)" by (cases acc)
  define i where "i = b + 2 * p"
  from Suc.hyps(2) have lt: "p < (N - b) div 2" by simp
  then have i: "i + 1 < N" unfolding i_def by linarith
  have n: "int i + 2 = int (b + 2 * Suc p)" by (simp add: i_def)
  have d: "d = (N - b) div 2 - Suc p" using Suc.hyps(2) by simp
  from lt have sp: "Suc p \<le> (N - b) div 2" by simp
  have u: "[p ..< (N - b) div 2] = p # [Suc p ..< (N - b) div 2]"
    using lt by (simp add: upt_conv_Cons)
  have f: "fold (paired_pair_step fo x y b) (p # ps) (s0, s1) =
      fold (paired_pair_step fo x y b) ps (paired_accumulate fo (x ! i) (y ! i) s0, paired_accumulate fo (x ! (Suc i)) (y ! (Suc i)) s1)" for ps
    by (simp add: paired_pair_step_def i_def)
  show ?case
    unfolding acc i_def [symmetric] original_pair_loop_paired_step [OF len wf i] n
      Suc.hyps(1) [OF d sp] u f ..
qed

lemma optimized_quad_loop_paired:
  assumes len: "N \<le> length x" "N \<le> length y" and wf: "list_all wf_q4_0 x" "list_all wf_q8_0 y"
    and q: "q \<le> N div 4"
  shows "optimized_quad_loop fo (int N) x y (int (4 * q)) acc =
           Inr (int (4 * (N div 4)), fold (paired_quad_step fo x y) [q ..< N div 4] acc)"
  using q
proof (induction "N div 4 - q" arbitrary: q acc)
  case 0
  then have e: "q = N div 4" by simp
  have "\<not> int (4 * q) + 3 < int N"
    unfolding e by linarith
  then show ?case
    by (simp add: optimized_quad_loop_exit e paired_quad_step_def)
next
  case (Suc d)
  obtain a0 a1 a2 a3 where acc: "acc = (a0, a1, a2, a3)" by (cases acc) auto
  define i where "i = 4 * q"
  from Suc.hyps(2) have lt: "q < N div 4" by simp
  then have i: "i + 3 < N" unfolding i_def by linarith
  have n: "int i + 4 = int (4 * Suc q)" by (simp add: i_def)
  have d: "d = N div 4 - Suc q" using Suc.hyps(2) by simp
  from lt have sq: "Suc q \<le> N div 4" by simp
  have u: "[q ..< N div 4] = q # [Suc q ..< N div 4]"
    using lt by (simp add: upt_conv_Cons)
  have f: "fold (paired_quad_step fo x y) (q # qs) (a0, a1, a2, a3) =
      fold (paired_quad_step fo x y) qs
        (paired_accumulate fo (x ! i) (y ! i) a0, paired_accumulate fo (x ! (Suc i)) (y ! (Suc i)) a1,
         paired_accumulate fo (x ! (Suc (Suc i))) (y ! (Suc (Suc i))) a2, paired_accumulate fo (x ! (Suc (Suc (Suc i)))) (y ! (Suc (Suc (Suc i)))) a3)" for qs
    by (simp add: paired_quad_step_def i_def numeral_3_eq_3)
  show ?case
    unfolding acc i_def [symmetric] optimized_quad_loop_paired_step [OF len wf i] n
      Suc.hyps(1) [OF d sq] u f ..
qed

lemma scalar_loop_paired:
  assumes len: "N \<le> length x" "N \<le> length y" and j: "j \<le> N"
  shows "scalar_loop fo (int N) x y (int j) sumf = Inr (fold (paired_scalar_step fo x y) [j ..< N] sumf)"
  using j
proof (induction "N - j" arbitrary: j sumf)
  case 0
  then show ?case by (simp add: scalar_loop_exit)
next
  case (Suc d)
  from Suc.hyps(2) have lt: "j < N" by simp
  then have c: "int j < int N" by simp
  from lt len have r: "readable x (int j) 1" "readable y (int j) 1"
    by (simp_all add: readable_def)
  have n: "int j + 1 = int (Suc j)" by simp
  have d: "d = N - Suc j" using Suc.hyps(2) by simp
  from lt have sj: "Suc j \<le> N" by simp
  have u: "[j ..< N] = j # [Suc j ..< N]"
    using lt by (simp add: upt_conv_Cons)
  show ?case
    unfolding scalar_loop_step [OF c r] n blk_int scalar_term_paired Suc.hyps(1) [OF d sj] u
    by (simp add: paired_scalar_step_def)
qed

lemma original_paired:
  assumes "valid_vectors n x y"
  shows "vec_dot_q4_0_q8_0_original fo n x y = Inr (paired_original fo (nat (n sdiv 32)) x y)"
proof (cases "n sdiv 32 \<le> 0")
  case True
  then show ?thesis
    by (simp add: original_no_blocks paired_original_def paired_pair_step_def)
next
  case False
  define N where "N = nat (n sdiv 32)"
  from False have nb: "n sdiv 32 = int N" by (simp add: N_def)
  from assms have v: "N \<le> length x" "N \<le> length y" "list_all wf_q4_0 x" "list_all wf_q8_0 y"
    by (simp_all add: valid_vectors_def nb)
  have j: "2 * (N div 2) \<le> N" by simp
  from original_pair_loop_paired [OF v, of 0 0 fo] scalar_loop_paired [OF v(1,2) j, of fo]
  show ?thesis
    by (simp add: vec_dot_q4_0_q8_0_original_def Let_def QK4_0_def nb paired_original_def N_def [symmetric]
        split: prod.splits)
qed

lemma optimized_paired:
  assumes "valid_vectors n x y"
  shows "vec_dot_q4_0_q8_0_optimized fo n x y = Inr (paired_optimized fo (nat (n sdiv 32)) x y)"
proof (cases "n sdiv 32 \<le> 0")
  case True
  then show ?thesis
    by (simp add: optimized_no_blocks paired_optimized_def paired_pair_step_def paired_quad_step_def)
next
  case False
  define N where "N = nat (n sdiv 32)"
  from False have nb: "n sdiv 32 = int N" by (simp add: N_def)
  from assms have v: "N \<le> length x" "N \<le> length y" "list_all wf_q4_0 x" "list_all wf_q8_0 y"
    by (simp_all add: valid_vectors_def nb)
  have b: "4 * (N div 4) \<le> N" by simp
  have j: "2 * (N div 2) \<le> N" by simp
  have e: "4 * (N div 4) + 2 * ((N - 4 * (N div 4)) div 2) = 2 * (N div 2)"
    by presburger
  from optimized_quad_loop_paired [OF v, of 0 fo]
    original_pair_loop_paired [OF v b, of 0 fo] scalar_loop_paired [OF v(1,2) j, of fo]
  show ?thesis
    by (simp add: vec_dot_q4_0_q8_0_optimized_def Let_def QK4_0_def nb paired_optimized_def N_def [symmetric]
        optimized_pair_loop_eq e split: prod.splits)
qed

subsection \<open>Finite scales and zero partial sums\<close>

lemma f32_round_exp_upper:
  assumes "f32_round s m e = Finite t m' e'" "0 < m"
  shows "e' \<le> round_exp m e + 1"
  using assms by (auto simp add: f32_round_unfold split: if_splits)

lemma f32_round_finite:
  assumes "0 \<le> m" "e + bitlen m - 24 < 104"
  shows "is_finite (f32_round s m e)"
proof (cases "m = 0")
  case True
  then show ?thesis by (simp add: f32_round_def is_finite_def)
next
  case False
  from assms(2) have "round_exp m e + 1 \<le> 104"
    by (simp add: round_exp_def)
  then show ?thesis
    by (simp add: f32_round_unfold [OF False] is_finite_def)
qed

lemma f32_round_zero [simp]: "f32_round s 0 e = Finite s 0 (- 149)"
  by (simp add: f32_round_def)

lemma f32_of_fp16_finite:
  assumes "is_finite (f32_of_fp16 h)"
  shows "\<exists>s m e. f32_of_fp16 h = Finite s m e \<and> 0 \<le> m \<and> m < 2 ^ 24 \<and> e \<le> - 7"
proof -
  define ex where "ex = uint (drop_bit 10 h AND 0x1F)"
  define fr where "fr = uint (h AND 0x3FF)"
  have ex: "0 \<le> ex" "ex \<le> 31"
    by (simp_all add: ex_def uint_and)
  have fr: "0 \<le> fr" "fr \<le> 1023"
    by (simp_all add: fr_def uint_and)
  from assms have ex31: "ex \<noteq> 31"
    by (auto simp add: f32_of_fp16_def Let_def ex_def is_finite_def split: if_splits)
  define m0 where "m0 = (if ex = 0 then fr else 2 ^ 10 + fr)"
  define e0 where "e0 = (if ex = 0 then - 24 else ex - 25)"
  have r: "f32_of_fp16 h = f32_round (bit h 15) m0 e0"
    using ex31 by (simp add: f32_of_fp16_def Let_def ex_def fr_def m0_def e0_def)
  have m0: "0 \<le> m0" "m0 < 2 ^ 11" using fr by (simp_all add: m0_def)
  have e0: "e0 \<le> 5" using ex ex31 by (simp add: e0_def)
  from assms obtain s m e where fin: "f32_of_fp16 h = Finite s m e"
    by (cases "f32_of_fp16 h") (simp_all add: is_finite_def)
  have c: "f32_canonical (Finite s m e)"
    using f32_of_fp16_canonical [of h] by (simp add: fin)
  have "e \<le> - 7"
  proof (cases "m0 = 0")
    case True
    with r fin show ?thesis by simp
  next
    case False
    with m0 have pos: "0 < m0" by simp
    have "bitlen m0 \<le> 11" using m0 by (simp add: bitlen_le_iff_power)
    with e0 have "round_exp m0 e0 \<le> - 8" by (simp add: round_exp_def)
    with f32_round_exp_upper [OF _ pos, of "bit h 15" e0 s m e] r fin show ?thesis by simp
  qed
  with c fin show ?thesis by (simp add: f32_canonical_def)
qed

lemma f32_mul_fp16_finite:
  assumes "is_finite (f32_of_fp16 a)" "is_finite (f32_of_fp16 b)"
  shows "is_finite (f32_mul (f32_of_fp16 a) (f32_of_fp16 b))"
proof -
  from f32_of_fp16_finite [OF assms(1)] obtain s1 m1 e1 where
    a: "f32_of_fp16 a = Finite s1 m1 e1" "0 \<le> m1" "m1 < 2 ^ 24" "e1 \<le> - 7" by blast
  from f32_of_fp16_finite [OF assms(2)] obtain s2 m2 e2 where
    b: "f32_of_fp16 b = Finite s2 m2 e2" "0 \<le> m2" "m2 < 2 ^ 24" "e2 \<le> - 7" by blast
  have "m1 * m2 < 2 ^ 24 * 2 ^ 24"
    using a b by (intro mult_strict_mono') simp_all
  then have "bitlen (m1 * m2) \<le> 48"
    by (simp add: bitlen_le_iff_power)
  moreover have "0 \<le> m1 * m2" using a b by simp
  ultimately show ?thesis
    using a b by (simp add: f32_round_finite)
qed

lemma f32_mul_zero_finite: "is_zero a \<Longrightarrow> is_finite b \<Longrightarrow> is_zero (f32_mul a b)"
  by (cases b) (auto simp add: is_zero_def is_finite_def f32_pzero_def f32_nzero_def)

lemma f32_add_pzero_zero: "is_zero a \<Longrightarrow> f32_add f32_pzero a = f32_pzero"
  by (auto simp add: is_zero_def f32_pzero_def f32_nzero_def signed_int_def)

lemma f32_of_s32_zero [simp]: "f32_of_s32 0 = f32_pzero"
  by (simp add: f32_of_s32_def f32_pzero_def)

lemma is_zero_pzero [simp]: "is_zero f32_pzero"
  by (simp add: is_zero_def)

subsection \<open>Zero vectors\<close>

lemma pair_sum_zero_weights:
  assumes "wf_q4_0 xb" "list_all (\<lambda>q. q = 0x88) (q4_qs xb)" "\<forall>j\<in>set js. j < 16"
  shows "pair_sum xb yb js = 0"
proof -
  have "weight_lo xb j = 0 \<and> weight_hi xb j = 0" if "j < 16" for j
    using assms(1,2) that by (simp add: wf_q4_0_def list_all_length weight_lo_def weight_hi_def)
  with assms(3) show ?thesis
    by (simp add: pair_sum_def sum_list_nonneg_eq_0_iff) (induction js; simp)
qed

lemma pair_sum_zero_activations:
  assumes "wf_q8_0 yb" "list_all (\<lambda>b. b = 0) (q8_qs yb)" "\<forall>j\<in>set js. j < 16"
  shows "pair_sum xb yb js = 0"
proof -
  have "activation yb j = 0" if "j < 32" for j
    using assms(1,2) that by (simp add: wf_q8_0_def list_all_length activation_def)
  then have "activation yb j = 0 \<and> activation yb (j + 16) = 0" if "j < 16" for j
    using that by simp
  with assms(3) show ?thesis
    by (simp add: pair_sum_def) (induction js; simp)
qed

lemma zero_pair_sum:
  assumes "zero_pair xb yb" "\<forall>j\<in>set js. j < 16"
  shows "pair_sum xb yb js = 0"
  using assms pair_sum_zero_weights [of xb js yb] pair_sum_zero_activations [of yb js xb]
  by (auto simp add: zero_pair_def)

lemma PROCESS_BLOCK_zero:
  assumes "zero_pair xb yb"
  shows "PROCESS_BLOCK ieee_ops xb yb (vdupq_n_f32 f32_pzero) = vdupq_n_f32 f32_pzero"
proof -
  from assms have wf: "wf_q4_0 xb" "wf_q8_0 yb" by (simp_all add: zero_pair_def)
  have l: "pair_sum xb yb (lane_js i) = 0" if "i < 4" for i
    using that by (intro zero_pair_sum [OF assms]) (auto simp add: lane_js_def)
  have fin: "is_finite (f32_mul (f32_of_fp16 (q4_d xb)) (f32_of_fp16 (q8_d yb)))"
    using assms by (intro f32_mul_fp16_finite) (simp_all add: zero_pair_def)
  have "f32_add f32_pzero (f32_mul f32_pzero (f32_mul (f32_of_fp16 (q4_d xb)) (f32_of_fp16 (q8_d yb)))) = f32_pzero"
    by (intro f32_add_pzero_zero f32_mul_zero_finite fin) simp
  then show ?thesis
    by (simp add: PROCESS_BLOCK_sdot block_sdot_word [OF wf] l vmlaq_n_f32_def vcvtq_f32_s32_def vdupq_n_f32_def)
qed

lemma scalar_term_zero:
  assumes "zero_pair xb yb"
  shows "f32_add f32_pzero
           (f32_mul (f32_mul (f32_of_s32 (scalar_block_sum xb yb)) (f32_of_fp16 (q4_d xb)))
              (f32_of_fp16 (q8_d yb))) = f32_pzero"
proof -
  have "pair_sum xb yb [0 ..< 16] = 0"
    by (intro zero_pair_sum [OF assms]) simp
  then have "scalar_block_sum xb yb = 0"
    by (simp add: scalar_block_sum_word)
  then show ?thesis
    using assms by (intro f32_add_pzero_zero f32_mul_zero_finite) (simp_all add: zero_pair_def)
qed

lemma original_pair_loop_fixed:
  assumes "nb \<le> int (length x)" "nb \<le> int (length y)"
    and P: "\<And>k. k < nat nb \<Longrightarrow> PROCESS_BLOCK fo (x ! k) (y ! k) Z = Z"
    and "0 \<le> ib"
  shows "\<exists>ib'. original_pair_loop fo nb x y ib (Z, Z) = Inr (ib', Z, Z) \<and> ib \<le> ib'"
  using assms(4)
proof (induction "nat (nb - ib)" arbitrary: ib rule: less_induct)
  case less
  show ?case
  proof (cases "ib + 1 < nb")
    case False
    then show ?thesis by (simp add: original_pair_loop_exit)
  next
    case True
    with less.prems assms have r: "readable x ib 2" "readable y ib 2"
      by (simp_all add: readable_def)
    have "nat ib < nat nb" "nat (ib + 1) < nat nb" using True less.prems by simp_all
    then have p: "PROCESS_BLOCK fo (blk x ib) (blk y ib) Z = Z"
      "PROCESS_BLOCK fo (blk x (ib + 1)) (blk y (ib + 1)) Z = Z"
      unfolding blk_def by (simp_all only: P)
    have "\<exists>ib'. original_pair_loop fo nb x y (ib + 2) (Z, Z) = Inr (ib', Z, Z) \<and> ib + 2 \<le> ib'"
      using True less.prems by (intro less.hyps) simp_all
    then show ?thesis
      using True r p by (auto simp add: original_pair_loop_step)
  qed
qed

lemma optimized_quad_loop_fixed:
  assumes "nb \<le> int (length x)" "nb \<le> int (length y)"
    and P: "\<And>k. k < nat nb \<Longrightarrow> PROCESS_BLOCK fo (x ! k) (y ! k) Z = Z"
    and "0 \<le> ib"
  shows "\<exists>ib'. optimized_quad_loop fo nb x y ib (Z, Z, Z, Z) = Inr (ib', Z, Z, Z, Z) \<and> ib \<le> ib'"
  using assms(4)
proof (induction "nat (nb - ib)" arbitrary: ib rule: less_induct)
  case less
  show ?case
  proof (cases "ib + 3 < nb")
    case False
    then show ?thesis by (simp add: optimized_quad_loop_exit)
  next
    case True
    with less.prems assms have r: "readable x ib 4" "readable y ib 4"
      by (simp_all add: readable_def)
    have "nat ib < nat nb" "nat (ib + 1) < nat nb" "nat (ib + 2) < nat nb" "nat (ib + 3) < nat nb"
      using True less.prems by simp_all
    then have p: "PROCESS_BLOCK fo (blk x ib) (blk y ib) Z = Z"
      "PROCESS_BLOCK fo (blk x (ib + 1)) (blk y (ib + 1)) Z = Z"
      "PROCESS_BLOCK fo (blk x (ib + 2)) (blk y (ib + 2)) Z = Z"
      "PROCESS_BLOCK fo (blk x (ib + 3)) (blk y (ib + 3)) Z = Z"
      unfolding blk_def by (simp_all only: P)
    have "\<exists>ib'. optimized_quad_loop fo nb x y (ib + 4) (Z, Z, Z, Z) = Inr (ib', Z, Z, Z, Z) \<and> ib + 4 \<le> ib'"
      using True less.prems by (intro less.hyps) simp_all
    then show ?thesis
      using True r p by (auto simp add: optimized_quad_loop_step)
  qed
qed

lemma scalar_loop_fixed:
  assumes "nb \<le> int (length x)" "nb \<le> int (length y)"
    and P: "\<And>k. k < nat nb \<Longrightarrow>
        fadd fo z (fmul fo (fmul fo (s32_to_f32 fo (scalar_block_sum (x ! k) (y ! k)))
                     (fp16_to_fp32 fo (q4_d (x ! k)))) (fp16_to_fp32 fo (q8_d (y ! k)))) = z"
    and "0 \<le> ib"
  shows "scalar_loop fo nb x y ib z = Inr z"
  using assms(4)
proof (induction "nat (nb - ib)" arbitrary: ib rule: less_induct)
  case less
  show ?case
  proof (cases "ib < nb")
    case False
    then show ?thesis by (simp add: scalar_loop_exit)
  next
    case True
    with less.prems assms have r: "readable x ib 1" "readable y ib 1"
      by (simp_all add: readable_def)
    have "nat ib < nat nb" using True less.prems by simp
    note p = P [OF this]
    have "scalar_loop fo nb x y (ib + 1) z = Inr z"
      using True less.prems by (intro less.hyps) simp_all
    then show ?thesis
      using True r p by (simp add: scalar_loop_step blk_def)
  qed
qed

subsection \<open>The rounding error of one block pair\<close>

lemma f32_val_Finite: "f32_val (Finite s m e) = (if s then - 1 else 1) * mag m e"
proof (cases "0 \<le> e")
  case True
  then have "(2::real) powi e = 2 ^ nat e" by (simp add: power_int_def)
  with True show ?thesis by (simp add: f32_val_def mag_def)
next
  case False
  then have "(2::real) powi e = inverse (2 ^ nat (- e))" by (simp add: power_int_def power_divide inverse_eq_divide)
  with False show ?thesis by (simp add: f32_val_def mag_def divide_inverse)
qed

lemma mag_mult: "mag (m1 * m2) (e1 + e2) = mag m1 e1 * mag m2 e2"
  by (simp add: mag_def power_int_add)

lemma mag_shift: "mag (m * 2 ^ k) (e - int k) = mag m e"
  by (simp add: mag_def power_int_diff)

lemma mag_nonneg: "0 \<le> m \<Longrightarrow> 0 \<le> mag m e"
  by (simp add: mag_def)

lemma rne_shift_error: "2 * \<bar>rne_shift m k * 2 ^ k - m\<bar> \<le> 2 ^ k"
proof -
  define q where "q = m div 2 ^ k"
  define r where "r = m mod 2 ^ k"
  have m: "m = q * 2 ^ k + r" by (simp add: q_def r_def div_mult_mod_eq)
  have r: "0 \<le> r" "r < 2 ^ k" by (simp_all add: r_def)
  show ?thesis
  proof (cases "2 * r < 2 ^ k \<or> (2 * r = 2 ^ k \<and> even q)")
    case True
    then have "rne_shift m k = q" by (simp add: rne_shift_def q_def r_def Let_def)
    with True r show ?thesis unfolding m by auto
  next
    case False
    then have "rne_shift m k = q + 1" by (simp add: rne_shift_def q_def r_def Let_def)
    with False r show ?thesis unfolding m by (auto simp add: algebra_simps)
  qed
qed

lemma round_sig_lower:
  assumes "0 < m" "round_exp m e = e + bitlen m - 24"
  shows "2 ^ 23 \<le> round_sig m e"
proof -
  note re = assms(2)
  show ?thesis
  proof (cases "round_exp m e \<le> e")
    case True
    define j where "j = nat (24 - bitlen m)"
    have "nat (bitlen m - 1) + j = 23"
      using True re bitlen_pos [OF assms(1)] by (simp add: j_def)
    then have "(2::int) ^ 23 = 2 ^ nat (bitlen m - 1) * 2 ^ j"
      by (simp only: power_add [symmetric])
    also have "\<dots> \<le> m * 2 ^ j"
      using bitlen_lower [OF assms(1)] by simp
    finally show ?thesis
      using True re by (simp add: round_sig_def j_def)
  next
    case False
    define sh where "sh = nat (bitlen m - 24)"
    have "23 + sh = nat (bitlen m - 1)"
      using False re by (simp add: sh_def)
    then have "(2::int) ^ 23 * 2 ^ sh = 2 ^ nat (bitlen m - 1)"
      by (simp only: power_add [symmetric])
    with bitlen_lower [OF assms(1)] have "2 ^ 23 * 2 ^ sh \<le> m"
      by simp
    then have "2 ^ 23 \<le> m div 2 ^ sh"
      by (intro le_div_int) simp_all
    then show ?thesis
      using False re rne_shift_bounds [of m sh] by (simp add: round_sig_def sh_def)
  qed
qed

lemma round_sig_error:
  assumes "0 < m" "round_exp m e = e + bitlen m - 24"
  shows "\<bar>mag (round_sig m e) (round_exp m e) - mag m e\<bar> \<le> mag m e / 2 ^ 24"
    and "bitlen m \<le> 24 \<longrightarrow> mag (round_sig m e) (round_exp m e) = mag m e"
proof -
  define E where "E = round_exp m e"
  have re: "E = e + bitlen m - 24" using assms(2) by (simp add: E_def)
  have pos: "0 \<le> mag m e" using assms(1) by (simp add: mag_nonneg)
  have exact: "mag (round_sig m e) E = mag m e" if "E \<le> e"
  proof -
    define j where "j = nat (e - E)"
    have "E = e - int j" using that by (simp add: j_def)
    moreover have "round_sig m e = m * 2 ^ j"
      using that by (simp add: round_sig_def E_def j_def)
    ultimately show ?thesis by (simp add: mag_shift)
  qed
  show "bitlen m \<le> 24 \<longrightarrow> mag (round_sig m e) (round_exp m e) = mag m e"
    using exact re by (simp add: E_def)
  show "\<bar>mag (round_sig m e) (round_exp m e) - mag m e\<bar> \<le> mag m e / 2 ^ 24"
  proof (cases "E \<le> e")
    case True
    with exact pos show ?thesis by (simp add: E_def)
  next
    case False
    define sh where "sh = nat (E - e)"
    have E: "E = e + int sh" using False by (simp add: sh_def)
    have sig: "round_sig m e = rne_shift m sh"
      using False by (simp add: round_sig_def E_def sh_def)
    have k: "nat (bitlen m - 1) = 23 + sh"
      using False re by (simp add: sh_def)
    define d where "d = rne_shift m sh * 2 ^ sh - m"
    have d: "2 * \<bar>d\<bar> \<le> 2 ^ sh" unfolding d_def by (rule rne_shift_error)
    have lo: "(2::int) ^ 23 * 2 ^ sh \<le> m"
      using bitlen_lower [OF assms(1)] by (simp add: k power_add)
    have "2 ^ 24 * \<bar>d\<bar> = 2 ^ 23 * (2 * \<bar>d\<bar>)" by simp
    also have "\<dots> \<le> 2 ^ 23 * 2 ^ sh"
      using d by (intro mult_left_mono) simp_all
    also note lo
    finally have "2 ^ 24 * \<bar>d\<bar> \<le> m" .
    then have "real_of_int (2 ^ 24 * \<bar>d\<bar>) \<le> real_of_int m" by (rule of_int_le_iff [THEN iffD2])
    then have dm: "\<bar>real_of_int d\<bar> \<le> real_of_int m / 2 ^ 24" by simp
    have "mag (round_sig m e) E - mag m e = real_of_int d * 2 powi e"
      by (simp add: mag_def sig E d_def power_int_add algebra_simps)
    then have "\<bar>mag (round_sig m e) E - mag m e\<bar> = \<bar>real_of_int d\<bar> * 2 powi e"
      by (simp add: abs_mult)
    also have "\<dots> \<le> real_of_int m / 2 ^ 24 * 2 powi e"
      using dm by (intro mult_right_mono) simp_all
    finally show ?thesis by (simp add: mag_def E_def)
  qed
qed

lemma f32_round_error:
  assumes "0 < m" and "- 149 \<le> e + bitlen m - 24" and "f32_round s m e = Finite t m' e'"
  shows "t = s \<and> \<bar>mag m' e' - mag m e\<bar> \<le> mag m e / 2 ^ 24 \<and> 2 ^ 23 \<le> m' \<and> m' < 2 ^ 24
       \<and> e + bitlen m - 24 \<le> e' \<and> e' \<le> e + bitlen m - 23
       \<and> (bitlen m \<le> 24 \<longrightarrow> mag m' e' = mag m e)"
proof -
  have re: "round_exp m e = e + bitlen m - 24"
    using assms(2) by (simp add: round_exp_def)
  note lo = round_sig_lower [OF assms(1) re]
  note hi = round_sig_le [OF assms(1), of e]
  note err = round_sig_error [OF assms(1) re]
  have up: "mag (2 ^ 23) (round_exp m e + 1) = mag (2 ^ 24) (round_exp m e)"
    by (simp add: mag_def power_int_add)
  show ?thesis
  proof (cases "round_sig m e = 2 ^ 24")
    case True
    with assms(1,3) have r: "t = s" "m' = 2 ^ 23" "e' = round_exp m e + 1"
      by (simp_all add: f32_round_unfold split: if_splits)
    from err True up show ?thesis
      unfolding r re by simp
  next
    case False
    with assms(1,3) have r: "t = s" "m' = round_sig m e" "e' = round_exp m e"
      by (simp_all add: f32_round_unfold split: if_splits)
    from err lo hi False show ?thesis
      unfolding r re by simp
  qed
qed

lemma normal_in_finite: "normal_in lo hi v \<Longrightarrow> is_finite v"
  by (cases v) (simp_all add: normal_in_def is_finite_def)

lemma is_zero_val: "is_zero v \<Longrightarrow> f32_val v = 0"
  by (auto simp add: is_zero_def f32_pzero_def f32_nzero_def f32_val_def)

lemma is_zero_finite: "is_zero v \<Longrightarrow> is_finite v"
  by (auto simp add: is_zero_def f32_pzero_def f32_nzero_def is_finite_def)

lemma f32_mul_finite_zero: "is_finite a \<Longrightarrow> is_zero b \<Longrightarrow> is_zero (f32_mul a b)"
  by (cases a) (auto simp add: is_zero_def is_finite_def f32_pzero_def f32_nzero_def)

lemma f32_round_normal:
  assumes "0 < m" "- 149 \<le> e + bitlen m - 24" "e + bitlen m - 24 < 104"
  shows "normal_in (e + bitlen m - 24) (e + bitlen m - 23) (f32_round s m e)
       \<and> \<bar>f32_val (f32_round s m e) - (if s then - 1 else 1) * mag m e\<bar> \<le> mag m e / 2 ^ 24
       \<and> (bitlen m \<le> 24 \<longrightarrow> f32_val (f32_round s m e) = (if s then - 1 else 1) * mag m e)"
proof -
  have "is_finite (f32_round s m e)"
    using assms by (intro f32_round_finite) simp_all
  then obtain t m' e' where f: "f32_round s m e = Finite t m' e'"
    by (cases "f32_round s m e") (simp_all add: is_finite_def)
  note r = f32_round_error [OF assms(1,2) f]
  have n: "normal_in (e + bitlen m - 24) (e + bitlen m - 23) (f32_round s m e)"
    using r by (simp add: f normal_in_def)
  have v: "f32_val (f32_round s m e) = (if s then - 1 else 1) * mag m' e'"
    using r by (simp add: f f32_val_Finite)
  have e: "\<bar>f32_val (f32_round s m e) - (if s then - 1 else 1) * mag m e\<bar> \<le> mag m e / 2 ^ 24"
    using r unfolding v by (cases s) (simp_all add: abs_minus_commute)
  have x: "bitlen m \<le> 24 \<longrightarrow> f32_val (f32_round s m e) = (if s then - 1 else 1) * mag m e"
    using r unfolding v by simp
  from n e x show ?thesis by simp
qed

lemma f32_round_int_exact:
  assumes "i \<noteq> 0" "\<bar>i\<bar> < 2 ^ 24"
  shows "normal_in (- 23) 1 (f32_round (i < 0) \<bar>i\<bar> 0) \<and> f32_val (f32_round (i < 0) \<bar>i\<bar> 0) = real_of_int i"
proof -
  define m where "m = \<bar>i\<bar>"
  have m: "0 < m" "m < 2 ^ 24" using assms by (simp_all add: m_def)
  have b: "1 \<le> bitlen m" "bitlen m \<le> 24"
    using m by (simp_all add: bitlen_pos bitlen_le_iff_power)
  from b have c: "- 149 \<le> 0 + bitlen m - 24" "0 + bitlen m - 24 < 104" by simp_all
  note r = f32_round_normal [OF m(1) c, of "i < 0"]
  have "normal_in (- 23) 1 (f32_round (i < 0) m 0)"
    using r b by (cases "f32_round (i < 0) m 0") (auto simp add: normal_in_def)
  moreover have "f32_val (f32_round (i < 0) m 0) = real_of_int i"
    using r b by (auto simp add: mag_def m_def)
  ultimately show ?thesis by (simp add: m_def)
qed

lemma f32_of_s32_exact:
  assumes "sint w \<noteq> 0" "\<bar>sint w\<bar> < 2 ^ 24"
  shows "normal_in (- 23) 1 (f32_of_s32 w) \<and> f32_val (f32_of_s32 w) = real_of_int (sint w)"
  unfolding f32_of_s32_def Let_def by (rule f32_round_int_exact [OF assms])

lemma f32_of_fp16_zero_or_normal:
  assumes "is_finite (f32_of_fp16 h)"
  shows "is_zero (f32_of_fp16 h) \<or> normal_in (- 47) (- 7) (f32_of_fp16 h)"
proof -
  define ex where "ex = uint (drop_bit 10 h AND 0x1F)"
  define fr where "fr = uint (h AND 0x3FF)"
  have ex: "0 \<le> ex" "ex \<le> 31"
    by (simp_all add: ex_def uint_and)
  have fr: "0 \<le> fr" "fr \<le> 1023"
    by (simp_all add: fr_def uint_and)
  from assms have ex31: "ex \<noteq> 31"
    by (auto simp add: f32_of_fp16_def Let_def ex_def is_finite_def split: if_splits)
  define m0 where "m0 = (if ex = 0 then fr else 2 ^ 10 + fr)"
  define e0 where "e0 = (if ex = 0 then - 24 else ex - 25)"
  have r: "f32_of_fp16 h = f32_round (bit h 15) m0 e0"
    using ex31 by (simp add: f32_of_fp16_def Let_def ex_def fr_def m0_def e0_def)
  have m0: "0 \<le> m0" "m0 < 2 ^ 11" using fr by (simp_all add: m0_def)
  have e0: "- 24 \<le> e0" "e0 \<le> 5" using ex ex31 by (simp_all add: e0_def)
  show ?thesis
  proof (cases "m0 = 0")
    case True
    then show ?thesis
      by (cases "bit h 15") (simp_all add: r is_zero_def f32_pzero_def f32_nzero_def)
  next
    case False
    with m0 have pos: "0 < m0" by simp
    have b: "1 \<le> bitlen m0" "bitlen m0 \<le> 11"
      using pos m0 by (simp_all add: bitlen_pos bitlen_le_iff_power)
    from b e0 have c: "- 149 \<le> e0 + bitlen m0 - 24" "e0 + bitlen m0 - 24 < 104" by simp_all
    note n = f32_round_normal [OF pos c, of "bit h 15"]
    have "normal_in (- 47) (- 7) (f32_round (bit h 15) m0 e0)"
      using n b e0 by (cases "f32_round (bit h 15) m0 e0") (auto simp add: normal_in_def)
    then show ?thesis by (simp add: r)
  qed
qed

lemma f32_mul_normal:
  assumes "normal_in l1 h1 a" "normal_in l2 h2 b" "- 149 \<le> l1 + l2 + 23" "h1 + h2 + 24 < 104"
  shows "normal_in (l1 + l2 + 23) (h1 + h2 + 25) (f32_mul a b)
       \<and> \<bar>f32_val (f32_mul a b) - f32_val a * f32_val b\<bar> \<le> \<bar>f32_val a * f32_val b\<bar> / 2 ^ 24"
proof -
  from assms(1) obtain s1 m1 e1 where a: "a = Finite s1 m1 e1" "2 ^ 23 \<le> m1" "m1 < 2 ^ 24" "l1 \<le> e1" "e1 \<le> h1"
    by (cases a) (simp_all add: normal_in_def)
  from assms(2) obtain s2 m2 e2 where b: "b = Finite s2 m2 e2" "2 ^ 23 \<le> m2" "m2 < 2 ^ 24" "l2 \<le> e2" "e2 \<le> h2"
    by (cases b) (simp_all add: normal_in_def)
  define m where "m = m1 * m2"
  have "(2::int) ^ 23 * 2 ^ 23 \<le> m1 * m2"
    using a b by (intro mult_mono) simp_all
  then have lo: "2 ^ 46 \<le> m" by (simp add: m_def)
  have "m1 * m2 < 2 ^ 24 * 2 ^ 24"
    using a b by (intro mult_strict_mono') simp_all
  then have hi: "m < 2 ^ 48" by (simp add: m_def)
  from lo have pos: "0 < m" by simp
  have bl: "47 \<le> bitlen m" "bitlen m \<le> 48"
    using lo hi by (simp_all add: bitlen_le_iff_power bitlen_ge_iff_power)
  have c: "- 149 \<le> (e1 + e2) + bitlen m - 24" "(e1 + e2) + bitlen m - 24 < 104"
    using a b bl assms(3,4) by simp_all
  note n = f32_round_normal [OF pos c, of "s1 \<noteq> s2"]
  have mul: "f32_mul a b = f32_round (s1 \<noteq> s2) m (e1 + e2)"
    by (simp add: a b m_def)
  have "normal_in (l1 + l2 + 23) (h1 + h2 + 25) (f32_round (s1 \<noteq> s2) m (e1 + e2))"
    using n a b bl by (cases "f32_round (s1 \<noteq> s2) m (e1 + e2)") (auto simp add: normal_in_def)
  moreover have p: "f32_val a * f32_val b = (if s1 \<noteq> s2 then - 1 else 1) * mag m (e1 + e2)"
    by (simp add: a b f32_val_Finite m_def mag_mult)
  have "0 \<le> mag m (e1 + e2)" using pos by (simp add: mag_def)
  then have "\<bar>f32_val a * f32_val b\<bar> = mag m (e1 + e2)"
    unfolding p by simp
  with n p have "\<bar>f32_val (f32_round (s1 \<noteq> s2) m (e1 + e2)) - f32_val a * f32_val b\<bar>
      \<le> \<bar>f32_val a * f32_val b\<bar> / 2 ^ 24"
    by simp
  ultimately show ?thesis by (simp add: mul)
qed

lemma two_roundings:
  fixes A B C v :: real
  assumes "\<bar>B - A\<bar> \<le> \<bar>A\<bar> / 2 ^ 24" "\<bar>C - B * v\<bar> \<le> \<bar>B * v\<bar> / 2 ^ 24"
  shows "\<bar>C - A * v\<bar> \<le> \<bar>A * v\<bar> / 2 ^ 22"
proof -
  have "\<bar>A\<bar> / 2 ^ 24 \<le> \<bar>A\<bar>" by (simp add: field_simps)
  with assms(1) have "\<bar>B - A\<bar> \<le> \<bar>A\<bar>" by linarith
  then have B: "\<bar>B\<bar> \<le> 2 * \<bar>A\<bar>" by linarith
  have 1: "\<bar>C - B * v\<bar> \<le> 2 * (\<bar>A\<bar> * \<bar>v\<bar>) / 2 ^ 24"
  proof -
    have "\<bar>B\<bar> * \<bar>v\<bar> \<le> 2 * \<bar>A\<bar> * \<bar>v\<bar>"
      by (rule mult_right_mono [OF B]) simp
    then have "\<bar>B * v\<bar> / 2 ^ 24 \<le> 2 * (\<bar>A\<bar> * \<bar>v\<bar>) / 2 ^ 24"
      by (simp add: abs_mult)
    with assms(2) show ?thesis by linarith
  qed
  have 2: "\<bar>(B - A) * v\<bar> \<le> (\<bar>A\<bar> * \<bar>v\<bar>) / 2 ^ 24"
  proof -
    have "\<bar>B - A\<bar> * \<bar>v\<bar> \<le> \<bar>A\<bar> / 2 ^ 24 * \<bar>v\<bar>"
      by (rule mult_right_mono [OF assms(1)]) simp
    then show ?thesis by (simp add: abs_mult)
  qed
  have "C - A * v = (C - B * v) + (B - A) * v" by (simp add: algebra_simps)
  then have "\<bar>C - A * v\<bar> \<le> \<bar>C - B * v\<bar> + \<bar>(B - A) * v\<bar>" by simp
  with 1 2 have "\<bar>C - A * v\<bar> \<le> 3 * (\<bar>A\<bar> * \<bar>v\<bar>) / 2 ^ 24" by linarith
  also have "\<dots> \<le> (\<bar>A\<bar> * \<bar>v\<bar>) / 2 ^ 22" by simp
  finally show ?thesis by (simp add: abs_mult)
qed

lemma single_block_tolerance:
  assumes fin: "is_finite (f32_of_fp16 dx)" "is_finite (f32_of_fp16 dy)" and S: "\<bar>S\<bar> \<le> 32768"
  shows "is_finite (f32_add f32_pzero (f32_mul (f32_mul (f32_of_s32 (word_of_int S)) (f32_of_fp16 dx)) (f32_of_fp16 dy)))
       \<and> \<bar>f32_val (f32_add f32_pzero (f32_mul (f32_mul (f32_of_s32 (word_of_int S)) (f32_of_fp16 dx)) (f32_of_fp16 dy)))
            - real_of_int S * fp16_value dx * fp16_value dy\<bar>
          \<le> \<bar>real_of_int S * fp16_value dx * fp16_value dy\<bar> / 2 ^ 22"
proof -
  define c where "c = f32_of_s32 (word_of_int S)"
  define t1 where "t1 = f32_mul c (f32_of_fp16 dx)"
  define t2 where "t2 = f32_mul t1 (f32_of_fp16 dy)"
  have sS: "sint (word_of_int S :: 32 word) = S"
    using S by (intro sint32_of_int) simp_all
  have zero: "is_finite (f32_add f32_pzero t2) \<and> f32_val (f32_add f32_pzero t2) = 0" if "is_zero t2"
    using that by (simp add: f32_add_pzero_zero is_zero_finite is_zero_val)
  have goal0: ?thesis if "is_zero t2" "real_of_int S * fp16_value dx * fp16_value dy = 0"
    using zero [OF that(1)] that(2) unfolding t2_def t1_def c_def by simp
  show ?thesis
  proof (cases "S = 0")
    case True
    then have "is_zero c" by (simp add: c_def)
    then have "is_zero t2"
      unfolding t2_def t1_def by (intro f32_mul_zero_finite fin)
    with True show ?thesis by (intro goal0) simp_all
  next
    case False
    with sS S have "sint (word_of_int S :: 32 word) \<noteq> 0" "\<bar>sint (word_of_int S :: 32 word)\<bar> < 2 ^ 24"
      by simp_all
    from f32_of_s32_exact [OF this] have c: "normal_in (- 23) 1 c" "f32_val c = real_of_int S"
      by (simp_all only: c_def sS)
    show ?thesis
    proof (cases "is_zero (f32_of_fp16 dx)")
      case True
      then have "is_zero t1" unfolding t1_def by (intro f32_mul_finite_zero normal_in_finite [OF c(1)])
      then have "is_zero t2" unfolding t2_def by (intro f32_mul_zero_finite fin)
      with True show ?thesis by (intro goal0) (simp_all add: fp16_value_def is_zero_val)
    next
      case False
      with f32_of_fp16_zero_or_normal [OF fin(1)] have nx: "normal_in (- 47) (- 7) (f32_of_fp16 dx)" by simp
      from f32_mul_normal [OF c(1) nx] have t1: "normal_in (- 47) 19 t1"
        "\<bar>f32_val t1 - real_of_int S * fp16_value dx\<bar> \<le> \<bar>real_of_int S * fp16_value dx\<bar> / 2 ^ 24"
        by (simp_all add: t1_def c(2) fp16_value_def)
      show ?thesis
      proof (cases "is_zero (f32_of_fp16 dy)")
        case True
        then have "is_zero t2" unfolding t2_def by (intro f32_mul_finite_zero normal_in_finite [OF t1(1)])
        with True show ?thesis by (intro goal0) (simp_all add: fp16_value_def is_zero_val)
      next
        case False
        with f32_of_fp16_zero_or_normal [OF fin(2)] have ny: "normal_in (- 47) (- 7) (f32_of_fp16 dy)" by simp
        from f32_mul_normal [OF t1(1) ny] have t2: "normal_in (- 71) 37 t2"
          "\<bar>f32_val t2 - f32_val t1 * fp16_value dy\<bar> \<le> \<bar>f32_val t1 * fp16_value dy\<bar> / 2 ^ 24"
          by (simp_all add: t2_def fp16_value_def)
        have can: "f32_canonical t2"
          unfolding t2_def t1_def c_def
          by (intro f32_mul_canonical f32_of_s32_canonical f32_of_fp16_canonical)
        have "t2 \<noteq> f32_nzero"
          using t2(1) by (auto simp add: normal_in_def f32_nzero_def)
        with can have r: "f32_add f32_pzero t2 = t2"
          by (simp add: f32_add_pzero_left)
        from two_roundings [OF t1(2) t2(2)] normal_in_finite [OF t2(1)] show ?thesis
          unfolding t2_def [symmetric] t1_def [symmetric] c_def [symmetric] r by simp
      qed
    qed
  qed
qed

subsection \<open>Bounds on the magnitude of rounded results\<close>

lemma power_int_le_real: "a \<le> b \<Longrightarrow> (2::real) powi a \<le> 2 powi b"
  by (rule power_int_increasing) simp_all

lemma power_int_less_real_D: "(2::real) powi a < 2 powi b \<Longrightarrow> a < b"
  using power_int_le_real [of b a] by (cases "a < b") simp_all

lemma bitlen_mag_lower:
  assumes "0 < m"
  shows "2 powi (bitlen m - 1 + e) \<le> mag m e"
proof -
  have b: "1 \<le> bitlen m" by (rule bitlen_pos [OF assms])
  have "(2::real) powi (bitlen m - 1) = 2 ^ nat (bitlen m - 1)"
    using b by (simp add: power_int_def)
  also have "\<dots> = real_of_int (2 ^ nat (bitlen m - 1))" by simp
  also have "\<dots> \<le> real_of_int m"
    using bitlen_lower [OF assms] by (rule of_int_le_iff [THEN iffD2])
  finally have "(2::real) powi (bitlen m - 1) * 2 powi e \<le> real_of_int m * 2 powi e"
    by (intro mult_right_mono) simp_all
  then show ?thesis by (simp add: mag_def power_int_add)
qed

lemma f32_round_below:
  assumes "0 \<le> m" "mag m e < 2 ^ k" "k \<le> 127"
  shows "is_finite (f32_round s m e) \<and> \<bar>f32_val (f32_round s m e)\<bar> \<le> 2 ^ k"
proof (cases "m = 0")
  case True
  then show ?thesis by (simp add: is_finite_def f32_val_def)
next
  case False
  with assms(1) have m: "0 < m" by simp
  have "(2::real) powi (bitlen m - 1 + e) < 2 powi (int k)"
    using bitlen_mag_lower [OF m, of e] assms(2) by simp
  then have be: "e + bitlen m \<le> int k"
    using power_int_less_real_D [of "bitlen m - 1 + e" "int k"] by simp
  with assms(3) have "e + bitlen m - 24 < 104" by simp
  then have re: "round_exp m e + 1 \<le> 104" "round_exp m e + 24 \<le> int k"
    using be by (simp_all add: round_exp_def)
  note rs = round_sig_le [OF m, of e]
  have "mag (round_sig m e) (round_exp m e) \<le> mag (2 ^ 24) (round_exp m e)"
    using rs unfolding mag_def by (intro mult_right_mono) simp_all
  also have "\<dots> = 2 powi (round_exp m e + 24)"
    by (simp add: mag_def power_int_add)
  also have "\<dots> \<le> 2 powi (int k)"
    using re(2) by (rule power_int_le_real)
  finally have V: "mag (round_sig m e) (round_exp m e) \<le> 2 ^ k" by simp
  have up: "mag (2 ^ 23) (round_exp m e + 1) = mag (2 ^ 24) (round_exp m e)"
    by (simp add: mag_def power_int_add)
  have nn: "0 \<le> mag (round_sig m e) (round_exp m e)"
    using rs by (simp add: mag_nonneg)
  have absV: "\<bar>(if s then - 1 else 1) * mag (round_sig m e) (round_exp m e)\<bar> \<le> 2 ^ k"
    using V nn by (cases s) simp_all
  show ?thesis
  proof (cases "round_sig m e = 2 ^ 24")
    case True
    with re have r: "f32_round s m e = Finite s (2 ^ 23) (round_exp m e + 1)"
      by (simp add: f32_round_unfold [OF False])
    have "mag (2 ^ 23) (round_exp m e + 1) = mag (round_sig m e) (round_exp m e)"
      unfolding True by (rule up)
    with absV show ?thesis
      unfolding r f32_val_Finite by (simp add: is_finite_def)
  next
    case F: False
    with re have r: "f32_round s m e = Finite s (round_sig m e) (round_exp m e)"
      by (simp add: f32_round_unfold [OF False])
    from absV show ?thesis
      unfolding r f32_val_Finite by (simp add: is_finite_def)
  qed
qed

lemma below_mono: "below j v \<Longrightarrow> j \<le> k \<Longrightarrow> below k v"
proof -
  assume a: "below j v" "j \<le> k"
  then have "(2::real) ^ j \<le> 2 ^ k" by (intro power_increasing) simp_all
  with a show ?thesis unfolding below_def by linarith
qed

lemma below_pzero: "below k f32_pzero"
  by (simp add: below_def f32_pzero_canonical) (simp add: f32_pzero_def is_finite_def f32_val_def)

lemma below_finite: "below k v \<Longrightarrow> is_finite v"
  by (simp add: below_def)

lemma below_FiniteD:
  assumes "below k (Finite s m e)"
  shows "0 \<le> m" "mag m e \<le> 2 ^ k"
proof -
  from assms show m: "0 \<le> m" by (simp add: below_def f32_canonical_def)
  then have "0 \<le> mag m e" by (rule mag_nonneg)
  moreover from assms have "\<bar>(if s then - 1 else 1) * mag m e\<bar> \<le> 2 ^ k"
    by (simp add: below_def f32_val_Finite)
  ultimately show "mag m e \<le> 2 ^ k" by (cases s) simp_all
qed

lemma below_mul:
  assumes "below j a" "below k b" "j + k + 1 \<le> 127"
  shows "below (j + k + 1) (f32_mul a b)"
proof -
  from assms(1) obtain s1 m1 e1 where a0: "a = Finite s1 m1 e1"
    by (cases a) (auto simp add: below_def is_finite_def)
  from assms(2) obtain s2 m2 e2 where b0: "b = Finite s2 m2 e2"
    by (cases b) (auto simp add: below_def is_finite_def)
  note a = a0 below_FiniteD [OF assms(1) [unfolded a0]]
  note b = b0 below_FiniteD [OF assms(2) [unfolded b0]]
  have "mag (m1 * m2) (e1 + e2) = mag m1 e1 * mag m2 e2" by (rule mag_mult)
  also have "\<dots> \<le> 2 ^ j * 2 ^ k"
    using a b by (intro mult_mono) (simp_all add: mag_nonneg)
  also have "\<dots> < 2 ^ (j + k + 1)" by (simp add: power_add)
  finally have "mag (m1 * m2) (e1 + e2) < 2 ^ (j + k + 1)" .
  from f32_round_below [OF _ this assms(3), of "s1 \<noteq> s2"] a(2) b(2)
  have "is_finite (f32_mul a b) \<and> \<bar>f32_val (f32_mul a b)\<bar> \<le> 2 ^ (j + k + 1)"
    by (simp add: a b)
  moreover have "f32_canonical (f32_mul a b)"
    using assms by (intro f32_mul_canonical) (simp_all add: below_def)
  ultimately show ?thesis by (simp add: below_def)
qed

lemma signed_int_mag:
  "real_of_int (signed_int s (m * 2 ^ nat (e1 - e))) * 2 powi e = (if s then - 1 else 1) * mag m e1" if "e \<le> e1"
proof -
  have "e1 = e + int (nat (e1 - e))" using that by simp
  then have "(2::real) powi e1 = 2 powi e * 2 ^ nat (e1 - e)"
    by (metis power_int_add power_int_of_nat zero_neq_numeral)
  then show ?thesis by (simp add: signed_int_def mag_def)
qed

lemma below_add:
  assumes "below k a" "below k b" "k + 2 \<le> 127"
  shows "below (k + 2) (f32_add a b)"
proof -
  from assms(1) obtain s1 m1 e1 where a: "a = Finite s1 m1 e1" "\<bar>f32_val a\<bar> \<le> 2 ^ k"
    by (cases a) (auto simp add: below_def is_finite_def)
  from assms(2) obtain s2 m2 e2 where b: "b = Finite s2 m2 e2" "\<bar>f32_val b\<bar> \<le> 2 ^ k"
    by (cases b) (auto simp add: below_def is_finite_def)
  define e where "e = min e1 e2"
  define r where "r = signed_int s1 (m1 * 2 ^ nat (e1 - e)) + signed_int s2 (m2 * 2 ^ nat (e2 - e))"
  have le: "e \<le> e1" "e \<le> e2" by (simp_all add: e_def)
  have "real_of_int r * 2 powi e =
      real_of_int (signed_int s1 (m1 * 2 ^ nat (e1 - e))) * 2 powi e
      + real_of_int (signed_int s2 (m2 * 2 ^ nat (e2 - e))) * 2 powi e"
    by (simp add: r_def algebra_simps)
  also have "\<dots> = (if s1 then - 1 else 1) * mag m1 e1 + (if s2 then - 1 else 1) * mag m2 e2"
    by (simp only: signed_int_mag [OF le(1)] signed_int_mag [OF le(2)])
  also have "\<dots> = f32_val a + f32_val b"
    by (simp only: a(1) b(1) f32_val_Finite)
  finally have v: "real_of_int r * 2 powi e = f32_val a + f32_val b" .
  have can: "f32_canonical (f32_add a b)"
    using assms by (intro f32_add_canonical) (simp_all add: below_def)
  show ?thesis
  proof (cases "r = 0")
    case True
    then have "f32_add a b = Finite (s1 \<and> s2) 0 (- 149)"
      by (simp add: a b r_def e_def Let_def)
    with can show ?thesis
      by (simp add: below_def is_finite_def f32_val_def)
  next
    case False
    then have f: "f32_add a b = f32_round (r < 0) \<bar>r\<bar> e"
      by (simp add: a b r_def e_def Let_def)
    have "mag \<bar>r\<bar> e = \<bar>real_of_int r * 2 powi e\<bar>"
      by (simp add: mag_def abs_mult)
    also have "\<dots> \<le> 2 ^ k + 2 ^ k"
      unfolding v using a(2) b(2) by linarith
    also have "\<dots> < 2 ^ (k + 2)" by simp
    finally have "mag \<bar>r\<bar> e < 2 ^ (k + 2)" .
    from f32_round_below [OF _ this assms(3), of "r < 0"] can show ?thesis
      by (simp add: below_def f)
  qed
qed

lemma below_of_s32:
  assumes "\<bar>sint w\<bar> \<le> 2 ^ k" "k \<le> 23"
  shows "below k (f32_of_s32 w)"
proof (cases "sint w = 0")
  case True
  then have "f32_of_s32 w = f32_pzero" by (simp add: f32_of_s32_def f32_pzero_def)
  then show ?thesis by (simp add: below_pzero)
next
  case False
  have "(2::int) ^ k \<le> 2 ^ 23" using assms(2) by (intro power_increasing) simp_all
  with assms(1) have "\<bar>sint w\<bar> < 2 ^ 24" by simp
  note ex = f32_of_s32_exact [OF False this]
  have "real_of_int \<bar>sint w\<bar> \<le> real_of_int (2 ^ k)"
    using assms(1) by (rule of_int_le_iff [THEN iffD2])
  then have "\<bar>f32_val (f32_of_s32 w)\<bar> \<le> 2 ^ k"
    by (simp add: ex)
  moreover from ex have "is_finite (f32_of_s32 w)"
    by (intro normal_in_finite [of "- 23" 1]) simp
  ultimately show ?thesis
    unfolding below_def by (simp add: f32_of_s32_canonical)
qed

lemma below_scale:
  assumes "0 < lo" "hi \<le> 16" "lo \<le> f32_val (f32_of_fp16 h)" "f32_val (f32_of_fp16 h) \<le> hi"
  shows "below 4 (f32_of_fp16 h)"
proof -
  from assms have "f32_val (f32_of_fp16 h) \<noteq> 0" by simp
  then have "is_finite (f32_of_fp16 h)"
    by (cases "f32_of_fp16 h") (simp_all add: is_finite_def f32_val_def)
  with assms show ?thesis
    by (simp add: below_def f32_of_fp16_canonical)
qed

lemma below4_zero: "below4 k (vdupq_n_f32 f32_pzero)"
  by (simp add: below4_def vdupq_n_f32_def below_pzero)

lemma lane_sum_word:
  assumes "length js = 4"
  shows "\<bar>sint (word_of_int (\<Sum>j\<leftarrow>js. weight_lo xb j * activation yb j + weight_hi xb j * activation yb (j + 16)) :: 32 word)\<bar>
           \<le> 2 ^ 13"
proof -
  have b: "- 8128 \<le> pair_sum xb yb js" "pair_sum xb yb js \<le> 8192"
    using pair_sum_bound [of js xb yb] assms by simp_all
  then have "sint (word_of_int (pair_sum xb yb js) :: 32 word) = pair_sum xb yb js"
    by (intro sint32_of_int) simp_all
  with b show ?thesis
    unfolding pair_sum_one_list [symmetric] by simp
qed

lemma block_sum_word:
  "\<bar>sint (word_of_int (paired_block_sum xb yb) :: 32 word)\<bar> \<le> 2 ^ 15"
proof -
  have b: "- 32512 \<le> pair_sum xb yb [0 ..< 16]" "pair_sum xb yb [0 ..< 16] \<le> 32768"
    using pair_sum_bound [of "[0 ..< 16]" xb yb] by simp_all
  then have "sint (word_of_int (pair_sum xb yb [0 ..< 16]) :: 32 word) = pair_sum xb yb [0 ..< 16]"
    by (intro sint32_of_int) simp_all
  with b show ?thesis
    unfolding paired_block_sum_eq by simp
qed

lemma below_lane_term:
  assumes "below 4 dx" "below 4 dy" "\<bar>sint w\<bar> \<le> 2 ^ 13" "23 \<le> k"
  shows "below k (f32_mul (f32_of_s32 w) (f32_mul dx dy))"
proof -
  have "below 9 (f32_mul dx dy)"
    using below_mul [OF assms(1,2)] by simp
  moreover have "below 13 (f32_of_s32 w)"
    using assms(3) by (intro below_of_s32) simp_all
  ultimately have "below 23 (f32_mul (f32_of_s32 w) (f32_mul dx dy))"
    using below_mul [of 13 "f32_of_s32 w" 9 "f32_mul dx dy"] by simp
  then show ?thesis using assms(4) by (rule below_mono)
qed

lemma below_block_term:
  assumes "below 4 dx" "below 4 dy" "\<bar>sint w\<bar> \<le> 2 ^ 15" "25 \<le> k"
  shows "below k (f32_mul (f32_mul (f32_of_s32 w) dx) dy)"
proof -
  have "below 15 (f32_of_s32 w)"
    using assms(3) by (intro below_of_s32) simp_all
  then have "below 20 (f32_mul (f32_of_s32 w) dx)"
    using below_mul [of 15 "f32_of_s32 w" 4 dx] assms(1) by simp
  then have "below 25 (f32_mul (f32_mul (f32_of_s32 w) dx) dy)"
    using below_mul [of 20 "f32_mul (f32_of_s32 w) dx" 4 dy] assms(2) by simp
  then show ?thesis using assms(4) by (rule below_mono)
qed

lemma below4_accumulate:
  assumes "below4 k acc" "23 \<le> k" "k + 2 \<le> 127"
    and "below 4 (f32_of_fp16 (q4_d xb))" "below 4 (f32_of_fp16 (q8_d yb))"
  shows "below4 (k + 2) (paired_accumulate ieee_ops xb yb acc)"
proof -
  obtain a b c d where acc: "acc = Vec4 a b c d" by (cases acc)
  from assms(1) have l: "below k a" "below k b" "below k c" "below k d"
    by (simp_all add: acc below4_def)
  have t: "below k (f32_mul (f32_of_s32 (word_of_int
      (\<Sum>j\<leftarrow>js. weight_lo xb j * activation yb j + weight_hi xb j * activation yb (j + 16))))
      (f32_mul (f32_of_fp16 (q4_d xb)) (f32_of_fp16 (q8_d yb))))" if "length js = 4" for js
    by (intro below_lane_term assms lane_sum_word that)
  show ?thesis
    unfolding acc paired_accumulate_def paired_lanes_def vmlaq_n_f32_def vcvtq_f32_s32_def below4_def
      vec4.case ieee_ops_simps
    by (intro conjI below_add [OF _ _ assms(3)] l t) simp_all
qed

lemma below_paired_add:
  assumes "below k sumf" "25 \<le> k" "k + 2 \<le> 127"
    and "below 4 (f32_of_fp16 (q4_d xb))" "below 4 (f32_of_fp16 (q8_d yb))"
  shows "below (k + 2) (paired_add ieee_ops xb yb sumf)"
  unfolding paired_add_def ieee_ops_simps
  by (intro below_add [OF _ _ assms(3)] assms(1) below_block_term assms(4,5) block_sum_word assms(2))

lemma below_vaddvq:
  assumes "below4 k v" "k + 4 \<le> 127"
  shows "below (k + 4) (vaddvq_f32 ieee_ops v)"
proof -
  obtain a b c d where v: "v = Vec4 a b c d" by (cases v)
  from assms(1) have l: "below k a" "below k b" "below k c" "below k d"
    by (simp_all add: v below4_def)
  from assms(2) have k: "k + 2 \<le> 127" "k + 2 + 2 \<le> 127" by simp_all
  have "below (k + 2 + 2) (f32_add (f32_add a b) (f32_add c d))"
    by (intro below_add k l)
  moreover have "k + 2 + 2 = k + 4" by simp
  ultimately show ?thesis
    unfolding v vaddvq_f32_def vec4.case ieee_ops_simps by (simp only:)
qed

lemma below4_vaddq:
  assumes "below4 k u" "below4 k v" "k + 2 \<le> 127"
  shows "below4 (k + 2) (vaddq_f32 ieee_ops u v)"
proof -
  obtain a b c d where u: "u = Vec4 a b c d" by (cases u)
  obtain a' b' c' d' where v: "v = Vec4 a' b' c' d'" by (cases v)
  from assms show ?thesis
    unfolding u v below4_def vaddq_f32_def vec4.case ieee_ops_simps
    by (intro conjI below_add) simp_all
qed

lemma paired_original_small_below:
  assumes "N \<le> 3"
    and "\<And>k. k < N \<Longrightarrow> below 4 (f32_of_fp16 (q4_d (x ! k))) \<and> below 4 (f32_of_fp16 (q8_d (y ! k)))"
  shows "below 33 (paired_original ieee_ops N x y)"
proof -
  have z: "below4 23 (vdupq_n_f32 f32_pzero)" by (rule below4_zero)
  have zs: "below 29 (f32_add (vaddvq_f32 ieee_ops (vdupq_n_f32 f32_pzero)) (vaddvq_f32 ieee_ops (vdupq_n_f32 f32_pzero)))"
    using below_add [OF below_vaddvq [OF z] below_vaddvq [OF z]] by simp
  from assms(1) consider "N = 0" | "N = 1" | "N = 2" | "N = 3" by linarith
  then show ?thesis
  proof cases
    case 1
    from zs show ?thesis
      by (simp add: 1 paired_original_def) (erule below_mono, simp)
  next
    case 2
    from assms(2) [of 0] have s: "below 4 (f32_of_fp16 (q4_d (x ! 0)))" "below 4 (f32_of_fp16 (q8_d (y ! 0)))"
      by (simp_all add: 2)
    have "below (29 + 2) (paired_add ieee_ops (x ! 0) (y ! 0)
        (f32_add (vaddvq_f32 ieee_ops (vdupq_n_f32 f32_pzero)) (vaddvq_f32 ieee_ops (vdupq_n_f32 f32_pzero))))"
      by (intro below_paired_add zs s) simp_all
    then show ?thesis
      by (simp add: 2 paired_original_def paired_scalar_step_def) (erule below_mono, simp)
  next
    case 3
    from assms(2) [of 0] assms(2) [of 1]
    have s: "below 4 (f32_of_fp16 (q4_d (x ! 0)))" "below 4 (f32_of_fp16 (q8_d (y ! 0)))"
      "below 4 (f32_of_fp16 (q4_d (x ! Suc 0)))" "below 4 (f32_of_fp16 (q8_d (y ! Suc 0)))"
      by (simp_all add: 3)
    have a: "below4 (23 + 2) (paired_accumulate ieee_ops (x ! 0) (y ! 0) (vdupq_n_f32 f32_pzero))"
      "below4 (23 + 2) (paired_accumulate ieee_ops (x ! Suc 0) (y ! Suc 0) (vdupq_n_f32 f32_pzero))"
      by (intro below4_accumulate z s; simp)+
    have "below (25 + 4 + 2)
        (f32_add (vaddvq_f32 ieee_ops (paired_accumulate ieee_ops (x ! 0) (y ! 0) (vdupq_n_f32 f32_pzero)))
           (vaddvq_f32 ieee_ops (paired_accumulate ieee_ops (x ! Suc 0) (y ! Suc 0) (vdupq_n_f32 f32_pzero))))"
      using a by (intro below_add below_vaddvq) simp_all
    then show ?thesis
      by (simp add: 3 paired_original_def paired_pair_step_def) (erule below_mono, simp)
  next
    case 4
    from assms(2) [of 0] assms(2) [of 1] assms(2) [of 2]
    have s: "below 4 (f32_of_fp16 (q4_d (x ! 0)))" "below 4 (f32_of_fp16 (q8_d (y ! 0)))"
      "below 4 (f32_of_fp16 (q4_d (x ! Suc 0)))" "below 4 (f32_of_fp16 (q8_d (y ! Suc 0)))"
      "below 4 (f32_of_fp16 (q4_d (x ! 2)))" "below 4 (f32_of_fp16 (q8_d (y ! 2)))"
      by (simp_all add: 4)
    have a: "below4 (23 + 2) (paired_accumulate ieee_ops (x ! 0) (y ! 0) (vdupq_n_f32 f32_pzero))"
      "below4 (23 + 2) (paired_accumulate ieee_ops (x ! Suc 0) (y ! Suc 0) (vdupq_n_f32 f32_pzero))"
      by (intro below4_accumulate z s; simp)+
    have b: "below (25 + 4 + 2)
        (f32_add (vaddvq_f32 ieee_ops (paired_accumulate ieee_ops (x ! 0) (y ! 0) (vdupq_n_f32 f32_pzero)))
           (vaddvq_f32 ieee_ops (paired_accumulate ieee_ops (x ! Suc 0) (y ! Suc 0) (vdupq_n_f32 f32_pzero))))"
      using a by (intro below_add below_vaddvq) simp_all
    have "below (25 + 4 + 2 + 2) (paired_add ieee_ops (x ! 2) (y ! 2)
        (f32_add (vaddvq_f32 ieee_ops (paired_accumulate ieee_ops (x ! 0) (y ! 0) (vdupq_n_f32 f32_pzero)))
           (vaddvq_f32 ieee_ops (paired_accumulate ieee_ops (x ! Suc 0) (y ! Suc 0) (vdupq_n_f32 f32_pzero)))))"
      by (intro below_paired_add b s) simp_all
    then show ?thesis
      by (simp add: 4 paired_original_def paired_pair_step_def paired_scalar_step_def)
  qed
qed

subsection \<open>Changing one scale\<close>

lemma exact_dot_cong:
  assumes "\<And>j. i \<le> j \<Longrightarrow> j < k \<Longrightarrow> block_term dec (x ! j) (y ! j) = block_term dec (x' ! j) (y ! j)"
  shows "exact_dot dec x y i k = exact_dot dec x' y i k"
  unfolding exact_dot_def using assms by (intro arg_cong [where f = sum_list] map_cong) simp_all

lemma exact_dot_update:
  assumes "k < nb" "k < length x"
  shows "exact_dot dec (x[k := xb]) y 0 nb
       = exact_dot dec x y 0 nb - block_term dec (x ! k) (y ! k) + block_term dec xb (y ! k)"
proof -
  have s: "exact_dot dec z y 0 nb = exact_dot dec z y 0 k + block_term dec (z ! k) (y ! k) + exact_dot dec z y (Suc k) nb"
    for z
    using assms(1) exact_dot_split [of 0 k nb dec z y] exact_dot_first [of k nb dec z y] by simp
  have "exact_dot dec (x[k := xb]) y 0 k = exact_dot dec x y 0 k"
    by (intro exact_dot_cong) simp
  moreover have "exact_dot dec (x[k := xb]) y (Suc k) nb = exact_dot dec x y (Suc k) nb"
    by (intro exact_dot_cong) simp
  ultimately show ?thesis
    using assms(2) by (simp add: s [of "x[k := xb]"] s [of x])
qed

subsection \<open>Values of some binary16 scales\<close>

lemma fp16_values:
  "f32_of_fp16 0x4800 = Finite False 8388608 (- 20)"
  "f32_of_fp16 0x211F = Finite False 10739712 (- 30)"
  "f32_of_fp16 0x3C00 = Finite False 8388608 (- 23)"
  "f32_of_fp16 0x3C01 = Finite False 8396800 (- 23)"
  "f32_of_fp16 0x4000 = Finite False 8388608 (- 22)"
  "f32_of_fp16 0x7C00 = Infinity False"
  by code_simp+

subsection \<open>Scales in range and fewer than four blocks\<close>

lemma scales_in_range_below:
  assumes "scales_in_range (1 / 100) 10 x y" "k < length x" "k < length y"
  shows "below 4 (f32_of_fp16 (q4_d (x ! k))) \<and> below 4 (f32_of_fp16 (q8_d (y ! k)))"
proof -
  from assms have
    "1 / 100 \<le> f32_val (f32_of_fp16 (q4_d (x ! k)))" "f32_val (f32_of_fp16 (q4_d (x ! k))) \<le> 10"
    "1 / 100 \<le> f32_val (f32_of_fp16 (q8_d (y ! k)))" "f32_val (f32_of_fp16 (q8_d (y ! k))) \<le> 10"
    by (simp_all add: scales_in_range_def list_all_length)
  then show ?thesis
    by (intro conjI below_scale [of "1 / 100" 10]) simp_all
qed

lemma original_small_finite:
  assumes "valid_vectors n x y" "n < 128" "scales_in_range (1 / 100) 10 x y"
  shows "\<exists>r. vec_dot_q4_0_q8_0_original ieee_ops n x y = Inr r \<and> is_finite r"
proof -
  define N where "N = nat (n sdiv 32)"
  have N: "N \<le> 3"
  proof (cases "0 \<le> n")
    case True
    with assms(2) show ?thesis by (simp add: N_def sdiv_32_nonneg)
  next
    case False
    then have "n sdiv 32 \<le> 0" by (simp add: sdiv_32_small)
    then show ?thesis by (simp add: N_def)
  qed
  have s: "below 4 (f32_of_fp16 (q4_d (x ! k))) \<and> below 4 (f32_of_fp16 (q8_d (y ! k)))" if "k < N" for k
  proof -
    from that assms(1) have "k < length x" "k < length y"
      unfolding N_def valid_vectors_def by linarith+
    then show ?thesis by (rule scales_in_range_below [OF assms(3)])
  qed
  from paired_original_small_below [OF N s] have "is_finite (paired_original ieee_ops N x y)"
    by (simp add: below_def)
  then show ?thesis
    by (simp add: original_paired [OF assms(1)] N_def)
qed

lemma optimized_eq_original_below_128:
  assumes "n < 128"
  shows "vec_dot_q4_0_q8_0_optimized ieee_ops n x y = vec_dot_q4_0_q8_0_original ieee_ops n x y"
proof (cases "32 \<le> n")
  case True
  then show ?thesis using assms by (rule optimized_eq_original_small)
next
  case False
  then have "n sdiv 32 \<le> 0" by (simp add: sdiv_32_small)
  then show ?thesis by (simp add: original_no_blocks optimized_no_blocks)
qed

section \<open>The claims\<close>

subsection \<open>C1: the pairing of nibbles and activations\<close>

text \<open>
  Claim C1. For every \<open>n\<close> and all valid vectors, with any floating-point operations
  (binary32 among them), the original kernel returns what \<open>paired_original\<close> computes
  and the optimized kernel what \<open>paired_optimized\<close> computes: every block pair \<open>k\<close>
  below \<open>n / 32\<close> enters the result, in whichever of the four loops it is processed,
  only through sums of products in which the low nibble of weight byte \<open>j\<close> meets
  activation \<open>j\<close> and the high nibble of byte \<open>j\<close> meets activation \<open>j + 16\<close>. Read without
  rounding, both results are the sum over the block pairs of that sum of 32 products
  times the two scales. For every block pair of the call the integer sum of the scalar
  loop and the four SDOT lanes are these sums.
\<close>

theorem nibble_pairing:
  assumes "valid_vectors n x y"
  shows "vec_dot_q4_0_q8_0_original fo n x y = Inr (paired_original fo (nat (n sdiv 32)) x y)
       \<and> vec_dot_q4_0_q8_0_optimized fo n x y = Inr (paired_optimized fo (nat (n sdiv 32)) x y)
       \<and> vec_dot_q4_0_q8_0_original (exact_ops dec) n x y =
           Inr (\<Sum>k\<leftarrow>[0 ..< nat (n sdiv 32)].
                  real_of_int (paired_block_sum (x ! k) (y ! k)) * dec (q4_d (x ! k)) * dec (q8_d (y ! k)))
       \<and> vec_dot_q4_0_q8_0_optimized (exact_ops dec) n x y =
           Inr (\<Sum>k\<leftarrow>[0 ..< nat (n sdiv 32)].
                  real_of_int (paired_block_sum (x ! k) (y ! k)) * dec (q4_d (x ! k)) * dec (q8_d (y ! k)))
       \<and> (\<forall>k < nat (n sdiv 32).
             sint (scalar_block_sum (x ! k) (y ! k)) = paired_block_sum (x ! k) (y ! k)
           \<and> block_sdot (x ! k) (y ! k) = paired_lanes (x ! k) (y ! k))"
proof -
  have e: "exact_dot dec x y 0 (nat (n sdiv 32)) =
      (\<Sum>k\<leftarrow>[0 ..< nat (n sdiv 32)].
         real_of_int (paired_block_sum (x ! k) (y ! k)) * dec (q4_d (x ! k)) * dec (q8_d (y ! k)))"
    by (simp add: exact_dot_def block_term_def paired_block_sum_eq)
  have b: "\<forall>k < nat (n sdiv 32).
             sint (scalar_block_sum (x ! k) (y ! k)) = paired_block_sum (x ! k) (y ! k)
           \<and> block_sdot (x ! k) (y ! k) = paired_lanes (x ! k) (y ! k)"
  proof (intro allI impI)
    fix k assume "k < nat (n sdiv 32)"
    with assms have "k < length x" "k < length y"
      unfolding valid_vectors_def by linarith+
    with assms have "wf_q4_0 (x ! k)" "wf_q8_0 (y ! k)"
      by (simp_all add: valid_vectors_def list_all_length)
    then show "sint (scalar_block_sum (x ! k) (y ! k)) = paired_block_sum (x ! k) (y ! k)
           \<and> block_sdot (x ! k) (y ! k) = paired_lanes (x ! k) (y ! k)"
      by (simp add: scalar_block_sum_sint paired_block_sum_eq block_sdot_paired)
  qed
  show ?thesis
    using original_paired [OF assms, of fo] optimized_paired [OF assms, of fo]
      original_exact [OF assms, of dec] optimized_exact [OF assms, of dec] b
    unfolding e by (intro conjI)
qed

text \<open>
  At \<open>n = 224\<close>, \<open>X7\<close>, \<open>Y7\<close> the original kernel runs three iterations of its
  two-block loop and one of the scalar loop, the optimized kernel one iteration of the
  four-block loop, one of the two-block loop and one of the scalar loop. Both return
  832; the inverted pairing would give 992.
\<close>

theorem nibble_pairing_witness:
  "valid_vectors 224 X7 Y7
   \<and> vec_dot_q4_0_q8_0_original ieee_ops 224 X7 Y7 = Inr (Finite False 13631488 (- 14))
   \<and> vec_dot_q4_0_q8_0_optimized ieee_ops 224 X7 Y7 = Inr (Finite False 13631488 (- 14))
   \<and> f32_val (Finite False 13631488 (- 14)) = 832
   \<and> vec_dot_q4_0_q8_0_original (exact_ops fp16_value) 224 X7 Y7 = Inr 832
   \<and> vec_dot_q4_0_q8_0_optimized (exact_ops fp16_value) 224 X7 Y7 = Inr 832
   \<and> (\<Sum>k\<leftarrow>[0 ..< 7]. real_of_int (inverted_pair_sum (X7 ! k) (Y7 ! k) [0 ..< 16])
         * fp16_value (q4_d (X7 ! k)) * fp16_value (q8_d (Y7 ! k))) = 992
   \<and> (5::nat) < nat (224 sdiv 32)
   \<and> sint (scalar_block_sum (X7 ! 5) (Y7 ! 5)) = 352
   \<and> block_sdot (X7 ! 5) (Y7 ! 5) = Vec4 32 (- 32) 384 (- 32)"
proof -
  have v: "valid_vectors 224 X7 Y7"
    by (simp add: valid_vectors_def X7_def Y7_def wf_q4_0_def wf_q8_0_def sdiv_32_nonneg list_all_iff)
  have n: "nat (224 sdiv 32) = 7"
    by (simp add: sdiv_32_nonneg)
  have o: "paired_original ieee_ops 7 X7 Y7 = Finite False 13631488 (- 14)"
    by code_simp
  have p: "paired_optimized ieee_ops 7 X7 Y7 = Finite False 13631488 (- 14)"
    by code_simp
  have s: "map (\<lambda>k. paired_block_sum (X7 ! k) (Y7 ! k)) [0 ..< 7] = [384, 160, 32, 256, 192, 352, 288]"
    by code_simp
  have i: "map (\<lambda>k. inverted_pair_sum (X7 ! k) (Y7 ! k) [0 ..< 16]) [0 ..< 7]
      = [384, 160, 352, 192, 320, 224, 352]"
    by code_simp
  have l: "paired_lanes (X7 ! 5) (Y7 ! 5) = Vec4 32 (- 32) 384 (- 32)"
    by code_simp
  have d: "\<forall>k < 7. q4_d (X7 ! k) = 0x3C00 \<and> q8_d (Y7 ! k) = 0x3800"
    by (simp add: X7_def Y7_def)
  have hv: "f32_of_fp16 0x3C00 = Finite False 8388608 (- 23)" "f32_of_fp16 0x3800 = Finite False 8388608 (- 24)"
    by code_simp+
  have h: "fp16_value 0x3C00 = 1" "fp16_value 0x3800 = 1 / 2"
    by (simp_all add: fp16_value_def hv f32_val_def)
  have fv: "f32_val (Finite False 13631488 (- 14)) = 832"
    by (simp add: f32_val_def)
  have sum: "(\<Sum>k\<leftarrow>[0 ..< 7]. real_of_int (f k) * fp16_value (q4_d (X7 ! k)) * fp16_value (q8_d (Y7 ! k)))
      = real_of_int (sum_list (map f [0 ..< 7])) / 2" for f
  proof -
    have "(\<Sum>k\<leftarrow>[0 ..< 7]. real_of_int (f k) * fp16_value (q4_d (X7 ! k)) * fp16_value (q8_d (Y7 ! k)))
        = (\<Sum>k\<leftarrow>[0 ..< 7]. real_of_int (f k) / 2)"
      using d by (intro arg_cong [where f = sum_list] map_cong refl) (simp add: h)
    also have "\<dots> = real_of_int (sum_list (map f [0 ..< 7])) / 2"
      by (simp add: upt_rec)
    finally show ?thesis .
  qed
  have e: "(\<Sum>k\<leftarrow>[0 ..< 7]. real_of_int (paired_block_sum (X7 ! k) (Y7 ! k))
         * fp16_value (q4_d (X7 ! k)) * fp16_value (q8_d (Y7 ! k))) = 832"
    unfolding sum s by simp
  have e': "(\<Sum>k\<leftarrow>[0 ..< 7]. real_of_int (inverted_pair_sum (X7 ! k) (Y7 ! k) [0 ..< 16])
         * fp16_value (q4_d (X7 ! k)) * fp16_value (q8_d (Y7 ! k))) = 992"
    unfolding sum i by simp
  have s5: "paired_block_sum (X7 ! 5) (Y7 ! 5) = 352"
    by code_simp
  from nibble_pairing [OF v, of ieee_ops fp16_value]
  show ?thesis
    unfolding n o p e using v fv e' s5 l by simp
qed

subsection \<open>C2: agreement of the two kernels\<close>

text \<open>
  Claim C2, as amended. For every \<open>n\<close> below 128 (at most three blocks) and all valid
  vectors the two kernels return the same binary32 value; if in addition all scales
  lie between 0.01 and 10, that value is finite, so the two results agree with relative
  error below 1e-5 (they agree exactly). For every \<open>n\<close> and all valid vectors the two
  kernels return the same number when their floating-point operations are read without
  rounding: the sum over the block pairs of the integer partial sum times the two
  scales.
\<close>

theorem kernels_agree:
  assumes "valid_vectors n x y"
  shows "(n < 128 \<longrightarrow>
            vec_dot_q4_0_q8_0_optimized ieee_ops n x y = vec_dot_q4_0_q8_0_original ieee_ops n x y)
       \<and> (n < 128 \<and> scales_in_range (1 / 100) 10 x y \<longrightarrow>
            (\<exists>a b. vec_dot_q4_0_q8_0_optimized ieee_ops n x y = Inr a
                 \<and> vec_dot_q4_0_q8_0_original ieee_ops n x y = Inr b
                 \<and> relative_error_below (1 / 100000) a b))
       \<and> vec_dot_q4_0_q8_0_optimized (exact_ops dec) n x y = vec_dot_q4_0_q8_0_original (exact_ops dec) n x y
       \<and> vec_dot_q4_0_q8_0_original (exact_ops dec) n x y = Inr (exact_dot dec x y 0 (nat (n sdiv 32)))"
proof -
  have a: "n < 128 \<longrightarrow>
      vec_dot_q4_0_q8_0_optimized ieee_ops n x y = vec_dot_q4_0_q8_0_original ieee_ops n x y"
    by (simp add: optimized_eq_original_below_128)
  have b: "n < 128 \<and> scales_in_range (1 / 100) 10 x y \<longrightarrow>
            (\<exists>a b. vec_dot_q4_0_q8_0_optimized ieee_ops n x y = Inr a
                 \<and> vec_dot_q4_0_q8_0_original ieee_ops n x y = Inr b
                 \<and> relative_error_below (1 / 100000) a b)"
  proof
    assume h: "n < 128 \<and> scales_in_range (1 / 100) 10 x y"
    from original_small_finite [OF assms conjunct1 [OF h] conjunct2 [OF h]]
    obtain r where r: "vec_dot_q4_0_q8_0_original ieee_ops n x y = Inr r" "is_finite r" by blast
    have "relative_error_below (1 / 100000) r r"
      using r(2) by (simp add: relative_error_below_def)
    with r(1) optimized_eq_original_below_128 [OF conjunct1 [OF h], of x y]
    show "\<exists>a b. vec_dot_q4_0_q8_0_optimized ieee_ops n x y = Inr a
                 \<and> vec_dot_q4_0_q8_0_original ieee_ops n x y = Inr b
                 \<and> relative_error_below (1 / 100000) a b"
      by simp
  qed
  from a b original_exact [OF assms, of dec] optimized_exact [OF assms, of dec]
  show ?thesis by simp
qed

text \<open>
  At \<open>n = 96\<close>, \<open>X8\<close>, \<open>Y8\<close> both kernels return 152 in binary32; at \<open>n = 128\<close>, \<open>X2\<close>,
  \<open>Y2\<close> both return \<open>1718721 / 268435456\<close> without rounding.
\<close>

theorem kernels_agree_witness:
  "valid_vectors 96 X8 Y8 \<and> (96::int) < 128 \<and> scales_in_range (1 / 100) 10 X8 Y8
   \<and> vec_dot_q4_0_q8_0_optimized ieee_ops 96 X8 Y8 = Inr (Finite False 9961472 (- 16))
   \<and> vec_dot_q4_0_q8_0_original ieee_ops 96 X8 Y8 = Inr (Finite False 9961472 (- 16))
   \<and> relative_error_below (1 / 100000) (Finite False 9961472 (- 16)) (Finite False 9961472 (- 16))
   \<and> valid_vectors 128 X2 Y2
   \<and> vec_dot_q4_0_q8_0_optimized (exact_ops fp16_value) 128 X2 Y2
       = vec_dot_q4_0_q8_0_original (exact_ops fp16_value) 128 X2 Y2
   \<and> vec_dot_q4_0_q8_0_original (exact_ops fp16_value) 128 X2 Y2 = Inr (1718721 / 268435456)"
proof -
  have v8: "valid_vectors 96 X8 Y8"
    by (simp add: valid_vectors_def X8_def Y8_def wf_q4_0_def wf_q8_0_def sdiv_32_nonneg)
  have h: "f32_of_fp16 0x3800 = Finite False 8388608 (- 24)" "f32_of_fp16 0x4200 = Finite False 12582912 (- 22)"
    by code_simp+
  have s8: "scales_in_range (1 / 100) 10 X8 Y8"
    by (simp add: scales_in_range_def X8_def Y8_def fp16_values h f32_val_def)
  have o: "vec_dot_q4_0_q8_0_original ieee_ops 96 X8 Y8 = Inr (Finite False 9961472 (- 16))"
    by code_simp
  have v: "valid_vectors 128 X2 Y2"
    by (simp add: valid_vectors_def X2_def Y2_def wf_q4_0_def wf_q8_0_def sdiv_32_nonneg)
  have p: "pair_sum (X2 ! 0) (Y2 ! 0) [0 ..< 16] = 32512" "pair_sum (X2 ! Suc 0) (Y2 ! Suc 0) [0 ..< 16] = 32"
    "pair_sum (X2 ! 2) (Y2 ! 2) [0 ..< 16] = - 32512" "pair_sum (X2 ! 3) (Y2 ! 3) [0 ..< 16] = 32"
    by code_simp+
  have d: "q4_d (X2 ! 0) = 0x4800" "q4_d (X2 ! Suc 0) = 0x211F" "q4_d (X2 ! 2) = 0x4800" "q4_d (X2 ! 3) = 0x211F"
    "q8_d (Y2 ! 0) = 0x4800" "q8_d (Y2 ! Suc 0) = 0x211F" "q8_d (Y2 ! 2) = 0x4800" "q8_d (Y2 ! 3) = 0x211F"
    by (simp_all add: X2_def Y2_def)
  have n: "nat (128 sdiv 32) = 4" "[0 ..< 4] = [0, 1, 2, 3]"
    by (simp_all add: sdiv_32_nonneg upt_rec)
  have e: "exact_dot fp16_value X2 Y2 0 (nat (128 sdiv 32)) = 1718721 / 268435456"
    unfolding n exact_dot_def block_term_def
    by (simp add: p d fp16_value_def fp16_values f32_val_def)
  from kernels_agree [OF v8, of fp16_value] kernels_agree [OF v, of fp16_value] v8 s8 o v e
  show ?thesis by auto
qed

text \<open>
  Claim C2 as stated fails at \<open>n = 128\<close>, \<open>X2\<close>, \<open>Y2\<close>, with all scales between 0.01 and
  10. The original kernel adds blocks 0 and 2 in one accumulator, where they cancel
  exactly, and returns the contribution of blocks 1 and 3, about 0.0064. The optimized
  kernel adds block 0 to block 1 and block 2 to block 3 first; both small terms are
  rounded away and the result is 0.0.
\<close>

theorem relative_error_counterexample:
  "valid_vectors 128 X2 Y2 \<and> scales_in_range (1 / 100) 10 X2 Y2
   \<and> vec_dot_q4_0_q8_0_original ieee_ops 128 X2 Y2 = Inr (Finite False 13749768 (- 31))
   \<and> vec_dot_q4_0_q8_0_optimized ieee_ops 128 X2 Y2 = Inr f32_pzero
   \<and> \<not> relative_error_below (1 / 100000) f32_pzero (Finite False 13749768 (- 31))"
proof -
  have v: "valid_vectors 128 X2 Y2"
    by (simp add: valid_vectors_def X2_def Y2_def wf_q4_0_def wf_q8_0_def sdiv_32_nonneg)
  have s: "scales_in_range (1 / 100) 10 X2 Y2"
    by (simp add: scales_in_range_def X2_def Y2_def fp16_values f32_val_def)
  have o: "vec_dot_q4_0_q8_0_original ieee_ops 128 X2 Y2 = Inr (Finite False 13749768 (- 31))"
    by code_simp
  have p: "vec_dot_q4_0_q8_0_optimized ieee_ops 128 X2 Y2 = Inr f32_pzero"
    by code_simp
  have r: "\<not> relative_error_below (1 / 100000) f32_pzero (Finite False 13749768 (- 31))"
    by (simp add: relative_error_below_def f32_val_def f32_pzero_def is_finite_def)
  from v s o p r show ?thesis by (intro conjI)
qed

subsection \<open>C3: decoding a nibble pair\<close>

text \<open>
  Claim C3. Decoding a byte into its nibble pair is a total function of the byte: the
  results are \<open>(byte & 0x0F) - 8\<close> and \<open>(byte >> 4) - 8\<close>, and both are signed
  integers between -8 and 7, for every one of the 256 bytes.
\<close>

theorem decode_nibble_pair_total:
  "(case decode_nibble_pair q of (v0, v1) \<Rightarrow>
      sint v0 = int (unat (q AND 0x0F)) - 8 \<and> sint v1 = int (unat (drop_bit 4 q)) - 8
      \<and> - 8 \<le> sint v0 \<and> sint v0 \<le> 7 \<and> - 8 \<le> sint v1 \<and> sint v1 \<le> 7)"
proof -
  have "unat q mod 16 < 16" by simp
  moreover have "unat q div 16 < 16" using unat8_less [of q] by simp
  ultimately show ?thesis
    by (simp add: decode_nibble_pair_def nibble_v0_sint nibble_v1_sint unat_and15 unat_shr4)
qed

subsection \<open>C4: one block pair\<close>

text \<open>
  Claim C4, as amended. For \<open>n = 32\<close> and all block contents both kernels return the
  same binary32 value: the integer sum of the 32 signed products, converted to
  \<open>float\<close>, multiplied by \<open>fp16_to_fp32\<close> of the weight scale, then by \<open>fp16_to_fp32\<close> of
  the activation scale, and added to \<open>0.0f\<close>. Read without rounding, this is the
  reference value: the sum of the 32 products of the dequantized elements. When both
  stored scales are finite, the binary32 result is finite and differs from the
  reference value by at most \<open>2^-22\<close> of its magnitude: the conversion of the integer
  sum is exact (it has at most 16 bits) and each of the two multiplications rounds
  once.
\<close>

theorem single_block_result:
  assumes "x \<noteq> []" and "y \<noteq> []"
  shows "vec_dot_q4_0_q8_0_original ieee_ops 32 x y =
           Inr (f32_add f32_pzero
                  (f32_mul (f32_mul (f32_of_s32 (word_of_int (pair_sum (hd x) (hd y) [0 ..< 16])))
                              (f32_of_fp16 (q4_d (hd x))))
                     (f32_of_fp16 (q8_d (hd y)))))
       \<and> vec_dot_q4_0_q8_0_optimized ieee_ops 32 x y = vec_dot_q4_0_q8_0_original ieee_ops 32 x y
       \<and> vec_dot_q4_0_q8_0_original (exact_ops dec) 32 x y = Inr (reference_dot (exact_ops dec) (hd x) (hd y))
       \<and> vec_dot_q4_0_q8_0_optimized (exact_ops dec) 32 x y = Inr (reference_dot (exact_ops dec) (hd x) (hd y))
       \<and> (is_finite (f32_of_fp16 (q4_d (hd x))) \<and> is_finite (f32_of_fp16 (q8_d (hd y))) \<longrightarrow>
            (\<exists>r. vec_dot_q4_0_q8_0_original ieee_ops 32 x y = Inr r \<and> is_finite r
               \<and> \<bar>f32_val r - reference_dot (exact_ops fp16_value) (hd x) (hd y)\<bar>
                   \<le> \<bar>reference_dot (exact_ops fp16_value) (hd x) (hd y)\<bar> / 2 ^ 22))"
proof -
  have nb: "(32::int) sdiv 32 = 1" by (simp add: sdiv_32_nonneg)
  from assms have r: "readable x 0 1" "readable y 0 1"
    by (simp_all add: readable_def Suc_le_eq)
  from assms have b: "blk x 0 = hd x" "blk y 0 = hd y"
    by (simp_all add: blk_def hd_conv_nth)
  have o: "vec_dot_q4_0_q8_0_original fo 32 x y =
      Inr (fadd fo (fadd fo (vaddvq_f32 fo (vdupq_n_f32 (fzero fo))) (vaddvq_f32 fo (vdupq_n_f32 (fzero fo))))
            (fmul fo (fmul fo (s32_to_f32 fo (scalar_block_sum (hd x) (hd y))) (fp16_to_fp32 fo (q4_d (hd x))))
               (fp16_to_fp32 fo (q8_d (hd y)))))" for fo :: "'f fops"
    using r by (simp add: vec_dot_q4_0_q8_0_original_def Let_def QK4_0_def nb original_pair_loop_exit
        scalar_loop_step scalar_loop_exit b)
  have p: "vec_dot_q4_0_q8_0_optimized fo 32 x y =
      Inr (fadd fo
            (fadd fo
              (vaddvq_f32 fo
                 (vaddq_f32 fo (vaddq_f32 fo (vdupq_n_f32 (fzero fo)) (vdupq_n_f32 (fzero fo)))
                    (vaddq_f32 fo (vdupq_n_f32 (fzero fo)) (vdupq_n_f32 (fzero fo)))))
              (fadd fo (vaddvq_f32 fo (vdupq_n_f32 (fzero fo))) (vaddvq_f32 fo (vdupq_n_f32 (fzero fo)))))
            (fmul fo (fmul fo (s32_to_f32 fo (scalar_block_sum (hd x) (hd y))) (fp16_to_fp32 fo (q4_d (hd x))))
               (fp16_to_fp32 fo (q8_d (hd y)))))" for fo :: "'f fops"
    using r by (simp add: vec_dot_q4_0_q8_0_optimized_def Let_def QK4_0_def nb optimized_quad_loop_exit
        optimized_pair_loop_eq original_pair_loop_exit scalar_loop_step scalar_loop_exit b)
  have 1: "vec_dot_q4_0_q8_0_original ieee_ops 32 x y =
           Inr (f32_add f32_pzero
                  (f32_mul (f32_mul (f32_of_s32 (word_of_int (pair_sum (hd x) (hd y) [0 ..< 16])))
                              (f32_of_fp16 (q4_d (hd x))))
                     (f32_of_fp16 (q8_d (hd y)))))"
    by (simp add: o scalar_block_sum_word)
  have 2: "vec_dot_q4_0_q8_0_optimized ieee_ops 32 x y = vec_dot_q4_0_q8_0_original ieee_ops 32 x y"
    by (simp add: o p)
  have 3: "vec_dot_q4_0_q8_0_original (exact_ops dec) 32 x y = Inr (reference_dot (exact_ops dec) (hd x) (hd y))"
    by (simp add: o vaddvq_exact scalar_block_sum_real reference_dot_exact dequantized_dot_pair_sum)
  have 4: "vec_dot_q4_0_q8_0_optimized (exact_ops dec) 32 x y = Inr (reference_dot (exact_ops dec) (hd x) (hd y))"
    by (simp add: p vaddvq_exact hsum_vaddq_exact scalar_block_sum_real reference_dot_exact dequantized_dot_pair_sum)
  have 5: "is_finite (f32_of_fp16 (q4_d (hd x))) \<and> is_finite (f32_of_fp16 (q8_d (hd y))) \<longrightarrow>
            (\<exists>r. vec_dot_q4_0_q8_0_original ieee_ops 32 x y = Inr r \<and> is_finite r
               \<and> \<bar>f32_val r - reference_dot (exact_ops fp16_value) (hd x) (hd y)\<bar>
                   \<le> \<bar>reference_dot (exact_ops fp16_value) (hd x) (hd y)\<bar> / 2 ^ 22)"
  proof
    assume fin: "is_finite (f32_of_fp16 (q4_d (hd x))) \<and> is_finite (f32_of_fp16 (q8_d (hd y)))"
    have "\<bar>pair_sum (hd x) (hd y) [0 ..< 16]\<bar> \<le> 32768"
      using pair_sum_bound [of "[0 ..< 16]" "hd x" "hd y"] by (simp add: abs_le_iff)
    from single_block_tolerance [OF conjunct1 [OF fin] conjunct2 [OF fin] this] show
      "\<exists>r. vec_dot_q4_0_q8_0_original ieee_ops 32 x y = Inr r \<and> is_finite r
               \<and> \<bar>f32_val r - reference_dot (exact_ops fp16_value) (hd x) (hd y)\<bar>
                   \<le> \<bar>reference_dot (exact_ops fp16_value) (hd x) (hd y)\<bar> / 2 ^ 22"
      unfolding 1 reference_dot_exact dequantized_dot_pair_sum by blast
  qed
  from 1 2 3 4 5 show ?thesis by (intro conjI)
qed

text \<open>
  At \<open>X0\<close>, \<open>Y0\<close> both scales are 1.0 and the result is exactly \<open>-112\<close>.
\<close>

theorem single_block_result_witness:
  "[X0] \<noteq> [] \<and> [Y0] \<noteq> []
   \<and> vec_dot_q4_0_q8_0_original ieee_ops 32 [X0] [Y0] = Inr (Finite True 14680064 (- 17))
   \<and> vec_dot_q4_0_q8_0_optimized ieee_ops 32 [X0] [Y0] = Inr (Finite True 14680064 (- 17))
   \<and> f32_val (Finite True 14680064 (- 17)) = - 112
   \<and> vec_dot_q4_0_q8_0_original (exact_ops fp16_value) 32 [X0] [Y0] = Inr (- 112)
   \<and> is_finite (f32_of_fp16 (q4_d (hd [X0]))) \<and> is_finite (f32_of_fp16 (q8_d (hd [Y0])))
   \<and> \<bar>f32_val (Finite True 14680064 (- 17)) - reference_dot (exact_ops fp16_value) (hd [X0]) (hd [Y0])\<bar>
        \<le> \<bar>reference_dot (exact_ops fp16_value) (hd [X0]) (hd [Y0])\<bar> / 2 ^ 22"
proof -
  have f: "is_finite (f32_of_fp16 (q4_d (hd [X0])))" "is_finite (f32_of_fp16 (q8_d (hd [Y0])))"
    by (simp_all add: X0_def Y0_def fp16_values is_finite_def)
  have e: "f32_add f32_pzero
             (f32_mul (f32_mul (f32_of_s32 (word_of_int (pair_sum (hd [X0]) (hd [Y0]) [0 ..< 16])))
                         (f32_of_fp16 (q4_d (hd [X0]))))
                (f32_of_fp16 (q8_d (hd [Y0])))) = Finite True 14680064 (- 17)"
    by code_simp
  have p: "pair_sum X0 Y0 [0 ..< 16] = - 112"
    by code_simp
  have d: "reference_dot (exact_ops fp16_value) (hd [X0]) (hd [Y0]) = - 112"
    by (simp add: reference_dot_exact dequantized_dot_pair_sum p) (simp add: X0_def Y0_def fp16_value_def fp16_values f32_val_def)
  have v: "f32_val (Finite True 14680064 (- 17)) = - 112"
    by (simp add: f32_val_def)
  from single_block_result [of "[X0]" "[Y0]" fp16_value] e d v f show ?thesis
    by simp
qed

text \<open>
  Claim C4 as stated, for all block contents, fails when a scale is not finite. At
  \<open>X4\<close>, \<open>Y4\<close> the weight scale is the binary16 infinity and the integer sum is 210:
  both kernels return \<open>210 * infinity = +infinity\<close>. The reference dequantizes
  element by element; the first weight is 0, \<open>0 * infinity\<close> is a NaN, and so is the sum
  of the 32 products. An infinity is within no tolerance of a NaN.
\<close>

theorem single_block_counterexample:
  "valid_vectors 32 X4 Y4
   \<and> pair_sum (hd X4) (hd Y4) [0 ..< 16] = 210
   \<and> f32_of_fp16 (q4_d (hd X4)) = Infinity False
   \<and> vec_dot_q4_0_q8_0_original ieee_ops 32 X4 Y4 = Inr (Infinity False)
   \<and> vec_dot_q4_0_q8_0_optimized ieee_ops 32 X4 Y4 = Inr (Infinity False)
   \<and> dequantize_q4_0 ieee_ops (hd X4) 0 = NaN
   \<and> reference_dot ieee_ops (hd X4) (hd Y4) = NaN
   \<and> \<not> is_finite (Infinity False) \<and> \<not> is_finite NaN
   \<and> \<not> relative_error_below 1 (Infinity False) NaN"
proof -
  have v: "valid_vectors 32 X4 Y4"
    by (simp add: valid_vectors_def X4_def Y4_def wf_q4_0_def wf_q8_0_def sdiv_32_nonneg)
  have s: "pair_sum (hd X4) (hd Y4) [0 ..< 16] = 210"
    by code_simp
  have d: "f32_of_fp16 (q4_d (hd X4)) = Infinity False"
    by code_simp
  have o: "vec_dot_q4_0_q8_0_original ieee_ops 32 X4 Y4 = Inr (Infinity False)"
    by code_simp
  have p: "vec_dot_q4_0_q8_0_optimized ieee_ops 32 X4 Y4 = Inr (Infinity False)"
    by code_simp
  have e: "dequantize_q4_0 ieee_ops (hd X4) 0 = NaN"
    by code_simp
  have r: "reference_dot ieee_ops (hd X4) (hd Y4) = NaN"
    by code_simp
  have f: "\<not> is_finite (Infinity False)" "\<not> is_finite NaN" "\<not> relative_error_below 1 (Infinity False) NaN"
    by (simp_all add: is_finite_def relative_error_below_def)
  from v s d o p e r f show ?thesis by (intro conjI)
qed

subsection \<open>C5: zero vectors\<close>

text \<open>
  Claim C5, as amended. If every stored scale is finite, and every weight nibble
  decodes to zero or every activation byte is zero, then both kernels return exactly
  \<open>+0.0\<close>, for every \<open>n\<close> and all valid vectors.
\<close>

theorem zero_vectors_give_zero:
  assumes "valid_vectors n x y" and "finite_scales x y"
    and "weights_all_zero x \<or> activations_all_zero y"
  shows "vec_dot_q4_0_q8_0_original ieee_ops n x y = Inr f32_pzero
       \<and> vec_dot_q4_0_q8_0_optimized ieee_ops n x y = Inr f32_pzero"
proof -
  define nb where "nb = n sdiv 32"
  from assms(1) have v: "nb \<le> int (length x)" "nb \<le> int (length y)"
    by (simp_all add: valid_vectors_def nb_def)
  have zp: "zero_pair (x ! k) (y ! k)" if "k < nat nb" for k
  proof -
    from that v have "k < length x" "k < length y" by simp_all
    with assms show ?thesis
      by (auto simp add: zero_pair_def valid_vectors_def finite_scales_def weights_all_zero_def
          activations_all_zero_def list_all_length)
  qed
  have P: "PROCESS_BLOCK ieee_ops (x ! k) (y ! k) (vdupq_n_f32 f32_pzero) = vdupq_n_f32 f32_pzero"
    if "k < nat nb" for k
    by (rule PROCESS_BLOCK_zero [OF zp [OF that]])
  have S: "fadd ieee_ops f32_pzero (fmul ieee_ops (fmul ieee_ops (s32_to_f32 ieee_ops (scalar_block_sum (x ! k) (y ! k)))
                     (fp16_to_fp32 ieee_ops (q4_d (x ! k)))) (fp16_to_fp32 ieee_ops (q8_d (y ! k)))) = f32_pzero"
    if "k < nat nb" for k
    using scalar_term_zero [OF zp [OF that]] by simp
  from original_pair_loop_fixed [OF v P, of 0] obtain i2 where
    l2: "original_pair_loop ieee_ops nb x y 0 (vdupq_n_f32 f32_pzero, vdupq_n_f32 f32_pzero)
          = Inr (i2, vdupq_n_f32 f32_pzero, vdupq_n_f32 f32_pzero)" and i2: "0 \<le> i2"
    by auto
  have orig: "vec_dot_q4_0_q8_0_original ieee_ops n x y = Inr f32_pzero"
    using l2 scalar_loop_fixed [OF v S i2]
    by (simp add: vec_dot_q4_0_q8_0_original_def Let_def QK4_0_def nb_def [symmetric])
  from optimized_quad_loop_fixed [OF v P, of 0] obtain i4 where
    l4: "optimized_quad_loop ieee_ops nb x y 0
          (vdupq_n_f32 f32_pzero, vdupq_n_f32 f32_pzero, vdupq_n_f32 f32_pzero, vdupq_n_f32 f32_pzero)
          = Inr (i4, vdupq_n_f32 f32_pzero, vdupq_n_f32 f32_pzero, vdupq_n_f32 f32_pzero, vdupq_n_f32 f32_pzero)"
    and i4: "0 \<le> i4"
    by auto
  from original_pair_loop_fixed [OF v P i4] obtain j2 where
    m2: "original_pair_loop ieee_ops nb x y i4 (vdupq_n_f32 f32_pzero, vdupq_n_f32 f32_pzero)
          = Inr (j2, vdupq_n_f32 f32_pzero, vdupq_n_f32 f32_pzero)" and j2: "i4 \<le> j2"
    by auto
  from i4 j2 have "0 \<le> j2" by simp
  from scalar_loop_fixed [OF v S this] l4 m2
  have opt: "vec_dot_q4_0_q8_0_optimized ieee_ops n x y = Inr f32_pzero"
    by (simp add: vec_dot_q4_0_q8_0_optimized_def Let_def QK4_0_def nb_def [symmetric] optimized_pair_loop_eq)
  from orig opt show ?thesis by simp
qed

theorem zero_vectors_give_zero_witness:
  "valid_vectors 32 X5f [Y0] \<and> finite_scales X5f [Y0] \<and> weights_all_zero X5f
   \<and> vec_dot_q4_0_q8_0_original ieee_ops 32 X5f [Y0] = Inr f32_pzero
   \<and> vec_dot_q4_0_q8_0_optimized ieee_ops 32 X5f [Y0] = Inr f32_pzero"
proof -
  have v: "valid_vectors 32 X5f [Y0]"
    by (simp add: valid_vectors_def X5f_def Y0_def wf_q4_0_def wf_q8_0_def sdiv_32_nonneg)
  have f: "finite_scales X5f [Y0]"
    by (simp add: finite_scales_def X5f_def Y0_def fp16_values is_finite_def)
  have z: "weights_all_zero X5f"
    by (simp add: weights_all_zero_def X5f_def list_all_iff)
  from zero_vectors_give_zero [OF v f] z v f show ?thesis by simp
qed

text \<open>
  Claim C5 as stated fails when a scale is not finite: with the weight scale \<open>0x7C00\<close>
  (infinity), all weights zero and all activations zero, \<open>0 * infinity\<close> is a NaN and
  both kernels return it.
\<close>

theorem zero_vectors_counterexample:
  "valid_vectors 32 X5 Y5 \<and> weights_all_zero X5 \<and> activations_all_zero Y5
   \<and> vec_dot_q4_0_q8_0_original ieee_ops 32 X5 Y5 = Inr NaN
   \<and> vec_dot_q4_0_q8_0_optimized ieee_ops 32 X5 Y5 = Inr NaN
   \<and> NaN \<noteq> f32_pzero"
proof -
  have v: "valid_vectors 32 X5 Y5"
    by (simp add: valid_vectors_def X5_def Y5_def wf_q4_0_def wf_q8_0_def sdiv_32_nonneg)
  have z: "weights_all_zero X5" "activations_all_zero Y5"
    by (simp_all add: weights_all_zero_def activations_all_zero_def X5_def Y5_def list_all_iff)
  have o: "vec_dot_q4_0_q8_0_original ieee_ops 32 X5 Y5 = Inr NaN"
    by code_simp
  have p: "vec_dot_q4_0_q8_0_optimized ieee_ops 32 X5 Y5 = Inr NaN"
    by code_simp
  from v z o p show ?thesis by (simp add: f32_pzero_def)
qed

subsection \<open>C6: changing the scale of one block\<close>

text \<open>
  Claim C6, as amended. Read without rounding, changing only the weight scale of
  block \<open>k\<close> changes the result of either kernel by exactly the integer partial sum of
  block \<open>k\<close> times its activation scale times the difference of the two weight scales.
\<close>

theorem scale_isolation_exact:
  assumes "valid_vectors n x y" and "k < nat (n sdiv 32)"
    and "vec_dot_q4_0_q8_0_original (exact_ops dec) n x y = Inr r"
    and "vec_dot_q4_0_q8_0_original (exact_ops dec) n (x[k := (x ! k)\<lparr>q4_d := d'\<rparr>]) y = Inr r'"
  shows "r' - r = real_of_int (pair_sum (x ! k) (y ! k) [0 ..< 16]) * dec (q8_d (y ! k)) * (dec d' - dec (q4_d (x ! k)))
       \<and> vec_dot_q4_0_q8_0_optimized (exact_ops dec) n x y = Inr r
       \<and> vec_dot_q4_0_q8_0_optimized (exact_ops dec) n (x[k := (x ! k)\<lparr>q4_d := d'\<rparr>]) y = Inr r'"
proof -
  define xb where "xb = (x ! k)\<lparr>q4_d := d'\<rparr>"
  from assms(1,2) have k: "k < length x"
    unfolding valid_vectors_def by linarith
  have wfk: "wf_q4_0 xb"
    using assms(1) k by (simp add: xb_def valid_vectors_def list_all_length wf_q4_0_def)
  have v': "valid_vectors n (x[k := xb]) y"
    using assms(1) wfk k by (simp add: valid_vectors_def list_all_length nth_list_update)
  have ps: "pair_sum xb (y ! k) js = pair_sum (x ! k) (y ! k) js" for js
    by (simp add: xb_def pair_sum_def weight_lo_def weight_hi_def)
  have r: "r = exact_dot dec x y 0 (nat (n sdiv 32))"
    using assms(3) by (simp add: original_exact [OF assms(1)])
  have r': "r' = exact_dot dec (x[k := xb]) y 0 (nat (n sdiv 32))"
    using assms(4) original_exact [OF v', of dec] by (simp add: xb_def)
  have "r' - r = block_term dec xb (y ! k) - block_term dec (x ! k) (y ! k)"
    unfolding r r' by (simp add: exact_dot_update [OF assms(2) k])
  also have "\<dots> = real_of_int (pair_sum (x ! k) (y ! k) [0 ..< 16]) * dec (q8_d (y ! k)) * (dec d' - dec (q4_d (x ! k)))"
    by (simp add: block_term_def ps algebra_simps) (simp add: xb_def)
  finally show ?thesis
    using r r' optimized_exact [OF assms(1), of dec] optimized_exact [OF v', of dec] by (simp add: xb_def)
qed

theorem scale_isolation_exact_witness:
  "valid_vectors 32 X6 Y6 \<and> 0 < nat (32 sdiv 32)
   \<and> vec_dot_q4_0_q8_0_original (exact_ops fp16_value) 32 X6 Y6 = Inr (29152025 / 1024)
   \<and> vec_dot_q4_0_q8_0_original (exact_ops fp16_value) 32 (X6[0 := (X6 ! 0)\<lparr>q4_d := 0x4000\<rparr>]) Y6
       = Inr (29152025 / 512)
   \<and> (29152025 / 512 - 29152025 / 1024 :: real)
       = real_of_int (pair_sum (X6 ! 0) (Y6 ! 0) [0 ..< 16]) * fp16_value (q8_d (Y6 ! 0))
           * (fp16_value 0x4000 - fp16_value (q4_d (X6 ! 0)))"
proof -
  have v: "valid_vectors 32 X6 Y6"
    by (simp add: valid_vectors_def X6_def Y6_def wf_q4_0_def wf_q8_0_def sdiv_32_nonneg)
  have k: "0 < nat (32 sdiv 32)"
    by (simp add: sdiv_32_nonneg)
  have v': "valid_vectors 32 (X6[0 := (X6 ! 0)\<lparr>q4_d := 0x4000\<rparr>]) Y6"
    by (simp add: valid_vectors_def X6_def Y6_def wf_q4_0_def wf_q8_0_def sdiv_32_nonneg)
  have p: "pair_sum (X6 ! 0) (Y6 ! 0) [0 ..< 16] = 28441"
    "pair_sum (X6[0 := (X6 ! 0)\<lparr>q4_d := 0x4000\<rparr>] ! 0) (Y6 ! 0) [0 ..< 16] = 28441"
    by code_simp+
  have d: "q4_d (X6 ! 0) = 0x3C00" "q8_d (Y6 ! 0) = 0x3C01"
    "q4_d (X6[0 := (X6 ! 0)\<lparr>q4_d := 0x4000\<rparr>] ! 0) = 0x4000"
    by (simp_all add: X6_def Y6_def)
  have n: "nat (32 sdiv 32) = 1" "[0 ..< 1] = [0]"
    by (simp_all add: sdiv_32_nonneg)
  have a: "vec_dot_q4_0_q8_0_original (exact_ops fp16_value) 32 X6 Y6 = Inr (29152025 / 1024)"
    unfolding original_exact [OF v] n exact_dot_def block_term_def
    by (simp add: p d fp16_value_def fp16_values f32_val_def)
  have b: "vec_dot_q4_0_q8_0_original (exact_ops fp16_value) 32 (X6[0 := (X6 ! 0)\<lparr>q4_d := 0x4000\<rparr>]) Y6
       = Inr (29152025 / 512)"
    unfolding original_exact [OF v'] n exact_dot_def block_term_def
    by (simp add: p d fp16_value_def fp16_values f32_val_def)
  from scale_isolation_exact [OF v k a b] v k a b show ?thesis by simp
qed

text \<open>
  Claim C6 as stated fails in binary32 arithmetic: at \<open>X6\<close>, \<open>Y6\<close> the partial sum is
  28441 and the activation scale \<open>1025 / 1024\<close>; with the weight scale 1.0 the product
  \<open>29152025 / 1024\<close> needs 25 bits and is rounded to \<open>3644003 / 128\<close>, with the scale
  2.0 to twice that. The results differ by \<open>3644003 / 128\<close>, not by \<open>29152025 / 1024\<close>.
\<close>

theorem scale_isolation_counterexample:
  "vec_dot_q4_0_q8_0_original ieee_ops 32 X6 Y6 = Inr (Finite False 14576012 (- 9))
   \<and> vec_dot_q4_0_q8_0_original ieee_ops 32 (X6[0 := (X6 ! 0)\<lparr>q4_d := 0x4000\<rparr>]) Y6
       = Inr (Finite False 14576012 (- 8))
   \<and> f32_val (Finite False 14576012 (- 8)) - f32_val (Finite False 14576012 (- 9))
       \<noteq> real_of_int (pair_sum (X6 ! 0) (Y6 ! 0) [0 ..< 16]) * f32_val (f32_of_fp16 (q8_d (Y6 ! 0)))
           * (f32_val (f32_of_fp16 0x4000) - f32_val (f32_of_fp16 (q4_d (X6 ! 0))))"
proof -
  have a: "vec_dot_q4_0_q8_0_original ieee_ops 32 X6 Y6 = Inr (Finite False 14576012 (- 9))"
    by code_simp
  have b: "vec_dot_q4_0_q8_0_original ieee_ops 32 (X6[0 := (X6 ! 0)\<lparr>q4_d := 0x4000\<rparr>]) Y6
       = Inr (Finite False 14576012 (- 8))"
    by code_simp
  have s: "pair_sum (X6 ! 0) (Y6 ! 0) [0 ..< 16] = 28441"
    by code_simp
  have d: "q8_d (Y6 ! 0) = 0x3C01" "q4_d (X6 ! 0) = 0x3C00"
    by (simp_all add: X6_def Y6_def)
  have c: "f32_val (Finite False 14576012 (- 8)) - f32_val (Finite False 14576012 (- 9))
       \<noteq> real_of_int (pair_sum (X6 ! 0) (Y6 ! 0) [0 ..< 16]) * f32_val (f32_of_fp16 (q8_d (Y6 ! 0)))
           * (f32_val (f32_of_fp16 0x4000) - f32_val (f32_of_fp16 (q4_d (X6 ! 0))))"
    unfolding s d fp16_values by (simp add: f32_val_def)
  from a b c show ?thesis by (intro conjI)
qed

subsection \<open>C7: the inputs are not changed and no state is kept\<close>

text \<open>
  Claim C7. Both kernels as programs on the memory: a call that returns leaves both
  input arrays and everything else in memory (static data, the heap) as they were, so
  it changes nothing but the \<open>float\<close> behind \<open>s\<close>; the value stored there is the value of
  the kernel function of \<open>n\<close> and the two arrays; a second call on the resulting memory
  changes nothing; a failing call fails exactly when the function does. Two memories
  that hold the same two arrays give the same result, whatever \<open>s\<close> pointed to before
  and whatever else they hold: no state of an earlier call enters. On valid vectors the
  call returns.
\<close>

theorem kernels_frame:
  "(call_original fo n mem = Inr mem' \<longrightarrow>
      mem_vx mem' = mem_vx mem \<and> mem_vy mem' = mem_vy mem \<and> mem_other mem' = mem_other mem
    \<and> vec_dot_q4_0_q8_0_original fo n (mem_vx mem) (mem_vy mem) = Inr (mem_s mem')
    \<and> call_original fo n mem' = Inr mem')
   \<and> (call_optimized fo n mem = Inr mem' \<longrightarrow>
      mem_vx mem' = mem_vx mem \<and> mem_vy mem' = mem_vy mem \<and> mem_other mem' = mem_other mem
    \<and> vec_dot_q4_0_q8_0_optimized fo n (mem_vx mem) (mem_vy mem) = Inr (mem_s mem')
    \<and> call_optimized fo n mem' = Inr mem')
   \<and> (call_original fo n mem = Inl e \<longrightarrow>
        vec_dot_q4_0_q8_0_original fo n (mem_vx mem) (mem_vy mem) = Inl e)
   \<and> (call_optimized fo n mem = Inl e \<longrightarrow>
        vec_dot_q4_0_q8_0_optimized fo n (mem_vx mem) (mem_vy mem) = Inl e)
   \<and> (mem_vx mem2 = mem_vx mem \<and> mem_vy mem2 = mem_vy mem \<longrightarrow>
        map_sum id mem_s (call_original fo n mem2) = map_sum id mem_s (call_original fo n mem)
      \<and> map_sum id mem_s (call_optimized fo n mem2) = map_sum id mem_s (call_optimized fo n mem))
   \<and> (valid_vectors n (mem_vx mem) (mem_vy mem) \<longrightarrow>
        (\<exists>v. call_original fo n mem = Inr (mem\<lparr>mem_s := v\<rparr>))
      \<and> (\<exists>v. call_optimized fo n mem = Inr (mem\<lparr>mem_s := v\<rparr>)))"
proof -
  have a: "call_original fo n mem = Inr mem' \<longrightarrow>
      mem_vx mem' = mem_vx mem \<and> mem_vy mem' = mem_vy mem \<and> mem_other mem' = mem_other mem
    \<and> vec_dot_q4_0_q8_0_original fo n (mem_vx mem) (mem_vy mem) = Inr (mem_s mem')
    \<and> call_original fo n mem' = Inr mem'"
    by (auto simp add: call_original_eq split: sum.splits)
  have b: "call_optimized fo n mem = Inr mem' \<longrightarrow>
      mem_vx mem' = mem_vx mem \<and> mem_vy mem' = mem_vy mem \<and> mem_other mem' = mem_other mem
    \<and> vec_dot_q4_0_q8_0_optimized fo n (mem_vx mem) (mem_vy mem) = Inr (mem_s mem')
    \<and> call_optimized fo n mem' = Inr mem'"
    by (auto simp add: call_optimized_eq split: sum.splits)
  have c: "call_original fo n mem = Inl e \<longrightarrow>
        vec_dot_q4_0_q8_0_original fo n (mem_vx mem) (mem_vy mem) = Inl e"
    by (auto simp add: call_original_eq split: sum.splits)
  have d: "call_optimized fo n mem = Inl e \<longrightarrow>
        vec_dot_q4_0_q8_0_optimized fo n (mem_vx mem) (mem_vy mem) = Inl e"
    by (auto simp add: call_optimized_eq split: sum.splits)
  have f: "mem_vx mem2 = mem_vx mem \<and> mem_vy mem2 = mem_vy mem \<longrightarrow>
        map_sum id mem_s (call_original fo n mem2) = map_sum id mem_s (call_original fo n mem)
      \<and> map_sum id mem_s (call_optimized fo n mem2) = map_sum id mem_s (call_optimized fo n mem)"
    by (auto simp add: call_original_eq call_optimized_eq split: sum.splits)
  have g: "valid_vectors n (mem_vx mem) (mem_vy mem) \<longrightarrow>
        (\<exists>v. call_original fo n mem = Inr (mem\<lparr>mem_s := v\<rparr>))
      \<and> (\<exists>v. call_optimized fo n mem = Inr (mem\<lparr>mem_s := v\<rparr>))"
    by (auto simp add: call_original_eq call_optimized_eq original_paired optimized_paired)
  from a b c d f g show ?thesis by (intro conjI)
qed

text \<open>
  A call on \<open>M0\<close> stores \<open>-112\<close> where the NaN was and leaves the rest; \<open>M0b\<close>, which
  differs from \<open>M0\<close> at the output location and elsewhere, gives the same result;
  without the weight array the call fails.
\<close>

theorem kernels_frame_witness:
  "call_original ieee_ops 32 M0 = Inr (M0\<lparr>mem_s := Finite True 14680064 (- 17)\<rparr>)
   \<and> call_optimized ieee_ops 32 M0 = Inr (M0\<lparr>mem_s := Finite True 14680064 (- 17)\<rparr>)
   \<and> mem_vx (M0\<lparr>mem_s := Finite True 14680064 (- 17)\<rparr>) = mem_vx M0
   \<and> mem_vy (M0\<lparr>mem_s := Finite True 14680064 (- 17)\<rparr>) = mem_vy M0
   \<and> mem_other (M0\<lparr>mem_s := Finite True 14680064 (- 17)\<rparr>) = mem_other M0
   \<and> call_original ieee_ops 32 (M0\<lparr>mem_s := Finite True 14680064 (- 17)\<rparr>)
       = Inr (M0\<lparr>mem_s := Finite True 14680064 (- 17)\<rparr>)
   \<and> mem_vx M0b = mem_vx M0 \<and> mem_vy M0b = mem_vy M0 \<and> mem_s M0b \<noteq> mem_s M0 \<and> mem_other M0b \<noteq> mem_other M0
   \<and> map_sum id mem_s (call_original ieee_ops 32 M0b) = Inr (Finite True 14680064 (- 17))
   \<and> map_sum id mem_s (call_optimized ieee_ops 32 M0b) = Inr (Finite True 14680064 (- 17))
   \<and> valid_vectors 32 (mem_vx M0) (mem_vy M0)
   \<and> call_original ieee_ops 0 (M0\<lparr>mem_vx := [], mem_vy := []\<rparr>) = Inr (M0\<lparr>mem_vx := [], mem_vy := [], mem_s := f32_pzero\<rparr>)
   \<and> call_original ieee_ops 32 (M0\<lparr>mem_vx := []\<rparr>) = Inl OutOfBounds
   \<and> vec_dot_q4_0_q8_0_original ieee_ops 32 [] [Y0] = Inl OutOfBounds"
proof -
  have a: "call_original ieee_ops 32 M0 = Inr (M0\<lparr>mem_s := Finite True 14680064 (- 17)\<rparr>)"
    by code_simp
  have b: "call_optimized ieee_ops 32 M0 = Inr (M0\<lparr>mem_s := Finite True 14680064 (- 17)\<rparr>)"
    by code_simp
  have c: "call_original ieee_ops 32 (M0\<lparr>mem_vx := []\<rparr>) = Inl OutOfBounds"
    by code_simp
  have d: "call_original ieee_ops 0 (M0\<lparr>mem_vx := [], mem_vy := []\<rparr>) = Inr (M0\<lparr>mem_vx := [], mem_vy := [], mem_s := f32_pzero\<rparr>)"
    by code_simp
  have m: "mem_vx M0b = mem_vx M0" "mem_vy M0b = mem_vy M0" "mem_s M0b \<noteq> mem_s M0" "mem_other M0b \<noteq> mem_other M0"
    by (simp_all add: M0_def M0b_def f32_pzero_def)
  have v: "valid_vectors 32 (mem_vx M0) (mem_vy M0)"
    by (simp add: valid_vectors_def M0_def X0_def Y0_def wf_q4_0_def wf_q8_0_def sdiv_32_nonneg)
  from kernels_frame [of ieee_ops 32 M0 "M0\<lparr>mem_s := Finite True 14680064 (- 17)\<rparr>" OutOfBounds M0b]
    kernels_frame [of ieee_ops 32 "M0\<lparr>mem_vx := []\<rparr>" M0 OutOfBounds M0b] a b c d m v
  show ?thesis by (simp add: M0_def)
qed

subsection \<open>C8: block counts 1, 2 and 3\<close>

text \<open>
  Claim C8. For \<open>32 \<le> n < 128\<close>, that is for 1, 2 or 3 blocks, the optimized kernel
  returns the same binary32 value as the original kernel (or fails on the same
  missing block): the four-block loop is skipped, its zero accumulators add \<open>+0.0\<close>,
  and \<open>+0.0 + v = v\<close> because the sum \<open>v\<close> of the two-block accumulators is never
  \<open>-0.0\<close>.
\<close>

theorem small_block_counts_bit_identical:
  assumes "32 \<le> n" and "n < 128"
  shows "vec_dot_q4_0_q8_0_optimized ieee_ops n x y = vec_dot_q4_0_q8_0_original ieee_ops n x y"
  using assms by (rule optimized_eq_original_small)

theorem small_block_counts_bit_identical_witness:
  "(32::int) \<le> 96 \<and> (96::int) < 128
   \<and> vec_dot_q4_0_q8_0_optimized ieee_ops 96 X8 Y8 = vec_dot_q4_0_q8_0_original ieee_ops 96 X8 Y8
   \<and> vec_dot_q4_0_q8_0_original ieee_ops 96 X8 Y8 = Inr (Finite False 9961472 (- 16))"
proof -
  have "vec_dot_q4_0_q8_0_original ieee_ops 96 X8 Y8 = Inr (Finite False 9961472 (- 16))"
    by code_simp
  with small_block_counts_bit_identical [of 96 X8 Y8] show ?thesis by simp
qed

subsection \<open>C9: fewer than 32 elements\<close>

text \<open>
  Claim C9. For every \<open>n < 32\<close>, zero and negative \<open>n\<close> included, both kernels return
  \<open>+0.0\<close> whatever the two arrays are, also for empty arrays, so no block is read. For
  every \<open>n\<close> both kernels return what they return for \<open>n\<close> rounded down to a multiple
  of 32.
\<close>

theorem no_full_block:
  "(n < 32 \<longrightarrow>
      vec_dot_q4_0_q8_0_original ieee_ops n x y = Inr f32_pzero
    \<and> vec_dot_q4_0_q8_0_optimized ieee_ops n x y = Inr f32_pzero)
   \<and> vec_dot_q4_0_q8_0_original fo n x y = vec_dot_q4_0_q8_0_original fo (32 * (n div 32)) x y
   \<and> vec_dot_q4_0_q8_0_optimized fo n x y = vec_dot_q4_0_q8_0_optimized fo (32 * (n div 32)) x y"
proof -
  have small: "vec_dot_q4_0_q8_0_original ieee_ops n x y = Inr f32_pzero
      \<and> vec_dot_q4_0_q8_0_optimized ieee_ops n x y = Inr f32_pzero" if "n < 32"
    using sdiv_32_small [OF that] by (simp add: original_no_blocks optimized_no_blocks)
  have down: "vec_dot_q4_0_q8_0_original fo n x y = vec_dot_q4_0_q8_0_original fo (32 * (n div 32)) x y
      \<and> vec_dot_q4_0_q8_0_optimized fo n x y = vec_dot_q4_0_q8_0_optimized fo (32 * (n div 32)) x y"
  proof (cases "0 \<le> n")
    case True
    then have "(32 * (n div 32)) sdiv 32 = n sdiv 32"
      by (simp add: sdiv_32_nonneg pos_imp_zdiv_nonneg_iff)
    then show ?thesis
      by (simp add: vec_dot_q4_0_q8_0_original_def vec_dot_q4_0_q8_0_optimized_def QK4_0_def)
  next
    case False
    then have "n sdiv 32 \<le> 0" by (simp add: sdiv_32_small)
    moreover from False have "32 * (n div 32) < 32" by simp
    then have "(32 * (n div 32)) sdiv 32 \<le> 0" by (rule sdiv_32_small)
    ultimately show ?thesis
      by (simp only: original_no_blocks optimized_no_blocks)
  qed
  from small down show ?thesis by blast
qed

theorem no_full_block_witness:
  "(31::int) < 32
   \<and> vec_dot_q4_0_q8_0_original ieee_ops 31 [] [] = Inr f32_pzero
   \<and> vec_dot_q4_0_q8_0_optimized ieee_ops 31 [] [] = Inr f32_pzero
   \<and> vec_dot_q4_0_q8_0_original ieee_ops (- 40) [] [] = Inr f32_pzero
   \<and> vec_dot_q4_0_q8_0_original ieee_ops 70 X8 Y8 = vec_dot_q4_0_q8_0_original ieee_ops 64 X8 Y8
   \<and> vec_dot_q4_0_q8_0_optimized ieee_ops 70 X8 Y8 = vec_dot_q4_0_q8_0_optimized ieee_ops 64 X8 Y8"
  using no_full_block [of 31 "[]" "[]" ieee_ops] no_full_block [of "- 40" "[]" "[]" ieee_ops]
    no_full_block [of 70 X8 Y8 ieee_ops]
  by simp

subsection \<open>C10: the integer partial sums do not overflow\<close>

text \<open>
  Claim C10. For every block pair the integer partial sum of the 32 products has
  absolute value at most 32768, and the 32-bit accumulation is exact: the two scalar
  accumulators after any number of iterations, their sum, every SDOT lane after the
  second instruction and every lane of the intermediate vector after the first one,
  read as signed 32-bit integers, are the mathematical sums, so nothing wraps.
\<close>

theorem block_partial_sum_no_overflow:
  assumes "wf_q4_0 xb" and "wf_q8_0 yb"
  shows "\<bar>pair_sum xb yb [0 ..< 16]\<bar> \<le> 32768
       \<and> sint (scalar_block_sum xb yb) = pair_sum xb yb [0 ..< 16]
       \<and> (\<forall>k\<le>16. case fold (scalar_step (q4_qs xb) (q8_qs yb)) [0 ..< k] (0, 0) of (sumi0, sumi1) \<Rightarrow>
              sint sumi0 = (\<Sum>j\<leftarrow>[0 ..< k]. weight_lo xb j * activation yb j)
            \<and> sint sumi1 = (\<Sum>j\<leftarrow>[0 ..< k]. weight_hi xb j * activation yb (j + 16)))
       \<and> (case block_sdot xb yb of Vec4 p0 p1 p2 p3 \<Rightarrow>
              sint p0 = pair_sum xb yb (lane_js 0) \<and> sint p1 = pair_sum xb yb (lane_js 1)
            \<and> sint p2 = pair_sum xb yb (lane_js 2) \<and> sint p3 = pair_sum xb yb (lane_js 3)
            \<and> \<bar>sint p0\<bar> \<le> 8192 \<and> \<bar>sint p1\<bar> \<le> 8192 \<and> \<bar>sint p2\<bar> \<le> 8192 \<and> \<bar>sint p3\<bar> \<le> 8192)
       \<and> (case vdotq_s32 (vdupq_n_s32 0)
                   (vsubq_s8 (vreinterpretq_s8_u8 (vandq_u8 (vld1q_u8 (q4_qs xb)) m4b)) s8b)
                   (vld1q_s8 (q8_qs yb)) of
             Vec4 l0 l1 l2 l3 \<Rightarrow>
               sint l0 = (\<Sum>j\<leftarrow>lane_js 0. weight_lo xb j * activation yb j)
             \<and> sint l1 = (\<Sum>j\<leftarrow>lane_js 1. weight_lo xb j * activation yb j)
             \<and> sint l2 = (\<Sum>j\<leftarrow>lane_js 2. weight_lo xb j * activation yb j)
             \<and> sint l3 = (\<Sum>j\<leftarrow>lane_js 3. weight_lo xb j * activation yb j))"
proof -
  have a: "\<bar>pair_sum xb yb [0 ..< 16]\<bar> \<le> 32768"
    using pair_sum_bound [of "[0 ..< 16]" xb yb] by (simp add: abs_le_iff)
  have b: "\<forall>k\<le>16. case fold (scalar_step (q4_qs xb) (q8_qs yb)) [0 ..< k] (0, 0) of (sumi0, sumi1) \<Rightarrow>
              sint sumi0 = (\<Sum>j\<leftarrow>[0 ..< k]. weight_lo xb j * activation yb j)
            \<and> sint sumi1 = (\<Sum>j\<leftarrow>[0 ..< k]. weight_hi xb j * activation yb (j + 16))"
    using scalar_prefix_exact [of _ xb yb] by (auto split: prod.splits)
  have l: "\<bar>pair_sum xb yb (lane_js i)\<bar> \<le> 8192" for i
    using pair_sum_bound [of "lane_js i" xb yb] by (simp add: lane_js_def abs_le_iff)
  have c: "case block_sdot xb yb of Vec4 p0 p1 p2 p3 \<Rightarrow>
              sint p0 = pair_sum xb yb (lane_js 0) \<and> sint p1 = pair_sum xb yb (lane_js 1)
            \<and> sint p2 = pair_sum xb yb (lane_js 2) \<and> sint p3 = pair_sum xb yb (lane_js 3)
            \<and> \<bar>sint p0\<bar> \<le> 8192 \<and> \<bar>sint p1\<bar> \<le> 8192 \<and> \<bar>sint p2\<bar> \<le> 8192 \<and> \<bar>sint p3\<bar> \<le> 8192"
    by (simp add: block_sdot_word [OF assms] lane_sint l)
  have d: "case vdotq_s32 (vdupq_n_s32 0)
                   (vsubq_s8 (vreinterpretq_s8_u8 (vandq_u8 (vld1q_u8 (q4_qs xb)) m4b)) s8b)
                   (vld1q_s8 (q8_qs yb)) of
             Vec4 l0 l1 l2 l3 \<Rightarrow>
               sint l0 = (\<Sum>j\<leftarrow>lane_js 0. weight_lo xb j * activation yb j)
             \<and> sint l1 = (\<Sum>j\<leftarrow>lane_js 1. weight_lo xb j * activation yb j)
             \<and> sint l2 = (\<Sum>j\<leftarrow>lane_js 2. weight_lo xb j * activation yb j)
             \<and> sint l3 = (\<Sum>j\<leftarrow>lane_js 3. weight_lo xb j * activation yb j)"
    unfolding vdotq_s32_def vdupq_n_s32_def vec4.case
    by (intro conjI sdot_lanes_lo [OF assms]) simp_all
  show ?thesis by (intro conjI a b c d scalar_block_sum_sint)
qed

theorem block_partial_sum_no_overflow_witness:
  "wf_q4_0 X0 \<and> wf_q8_0 Y0 \<and> sint (scalar_block_sum X0 Y0) = - 112 \<and> \<bar>- 112 :: int\<bar> \<le> 32768"
proof -
  have wf: "wf_q4_0 X0" "wf_q8_0 Y0"
    by (simp_all add: wf_q4_0_def wf_q8_0_def X0_def Y0_def)
  have "pair_sum X0 Y0 [0 ..< 16] = - 112"
    by code_simp
  with block_partial_sum_no_overflow [OF wf] wf show ?thesis by simp
qed

end
